theory Spec2Isabelle
  imports Complex_Main
begin

section \<open>Python values used by the impact functions\<close>

subsection \<open>Exceptions\<close>

text \<open>
  Every \<open>raise\<close> of the two impact functions, and every failure of a Python primitive
  they call, is a value of this type; a run returns \<open>error + result\<close>.
\<close>

datatype error =
    Exception string
  | RuntimeError string
  | InaSAFEError string
  | KeyError string
  | IndexError
  | OverflowError
  | ValueError

text \<open>The name of the Python class of an exception.\<close>

fun exception_class :: "error \<Rightarrow> string" where
  "exception_class (Exception msg) = ''Exception''"
| "exception_class (RuntimeError msg) = ''RuntimeError''"
| "exception_class (InaSAFEError msg) = ''InaSAFEError''"
| "exception_class (KeyError key) = ''KeyError''"
| "exception_class IndexError = ''IndexError''"
| "exception_class OverflowError = ''OverflowError''"
| "exception_class ValueError = ''ValueError''"

subsection \<open>Binary64 floating point\<close>

text \<open>
  A Python \<open>float\<close> and a cell of a numpy \<open>float64\<close> array is an IEEE 754 binary64
  value: a finite number, an infinity or a NaN. A finite value is kept as the rational
  it denotes. The sign of zero is not kept: it changes no comparison and no value the
  functions below compute.
\<close>

datatype pyfloat = Fin rat | PInf | NInf | NaN

text \<open>Number of binary digits of a natural number (Python's \<open>int.bit_length\<close>).\<close>

fun bit_length :: "nat \<Rightarrow> nat" where
  "bit_length n = (if n = 0 then 0 else Suc (bit_length (n div 2)))"

declare bit_length.simps [simp del]

text \<open>Rounding a rational to the nearest integer, ties to the even one.\<close>

definition round_half_even :: "rat \<Rightarrow> int" where
  "round_half_even y =
     (let f = \<lfloor>y\<rfloor>; d = y - of_int f
      in if d < 1 / 2 then f
         else if 1 / 2 < d then f + 1
         else if even f then f else f + 1)"

text \<open>
  The spacing of binary64 values around \<open>x\<close>, in units of \<open>2 ^ -1074\<close> (the smallest
  positive value). With \<open>y = x * 2 ^ 1074\<close>: below \<open>2 ^ 53\<close> units (subnormal values and
  the first normal binade) the spacing is one unit; from there on it doubles with every
  binary digit, so that 53 significant digits are kept.
\<close>

definition quantum :: "rat \<Rightarrow> nat" where
  "quantum y = 2 ^ (bit_length (nat \<lfloor>\<bar>y\<bar>\<rfloor>) - 53)"

text \<open>
  Rounding in these units: to the nearest multiple of the spacing, ties to the multiple
  with an even significand.
\<close>

definition round_units :: "rat \<Rightarrow> int" where
  "round_units y = round_half_even (y / of_nat (quantum y)) * int (quantum y)"

text \<open>
  Rounding of an exact result to binary64 in the default mode (to nearest, ties to
  even); a result that rounds to \<open>2 ^ 1024\<close> or beyond overflows to an infinity.
\<close>

definition rnd :: "rat \<Rightarrow> pyfloat" where
  "rnd x =
     (let m = round_units (x * 2 ^ 1074)
      in if 2 ^ 2098 \<le> m then PInf
         else if m \<le> - (2 ^ 2098) then NInf
         else Fin (of_int m / 2 ^ 1074))"


text \<open>Arithmetic: the exact result of finite operands is rounded; the special values
  follow IEEE 754.\<close>

fun fadd :: "pyfloat \<Rightarrow> pyfloat \<Rightarrow> pyfloat" where
  "fadd (Fin a) (Fin b) = rnd (a + b)"
| "fadd NaN _ = NaN"
| "fadd _ NaN = NaN"
| "fadd PInf NInf = NaN"
| "fadd NInf PInf = NaN"
| "fadd PInf _ = PInf"
| "fadd NInf _ = NInf"
| "fadd _ PInf = PInf"
| "fadd _ NInf = NInf"

fun fneg :: "pyfloat \<Rightarrow> pyfloat" where
  "fneg (Fin a) = Fin (- a)"
| "fneg PInf = NInf"
| "fneg NInf = PInf"
| "fneg NaN = NaN"

definition fsub :: "pyfloat \<Rightarrow> pyfloat \<Rightarrow> pyfloat" where
  "fsub a b = fadd a (fneg b)"

fun fmul :: "pyfloat \<Rightarrow> pyfloat \<Rightarrow> pyfloat" where
  "fmul (Fin a) (Fin b) = rnd (a * b)"
| "fmul NaN _ = NaN"
| "fmul _ NaN = NaN"
| "fmul PInf (Fin b) = (if 0 < b then PInf else if b < 0 then NInf else NaN)"
| "fmul NInf (Fin b) = (if 0 < b then NInf else if b < 0 then PInf else NaN)"
| "fmul (Fin a) PInf = (if 0 < a then PInf else if a < 0 then NInf else NaN)"
| "fmul (Fin a) NInf = (if 0 < a then NInf else if a < 0 then PInf else NaN)"
| "fmul PInf PInf = PInf"
| "fmul PInf NInf = NInf"
| "fmul NInf PInf = NInf"
| "fmul NInf NInf = PInf"

text \<open>
  Division of array cells by a positive finite constant (the functions divide by
  \<open>100\<close> and \<open>100000.0\<close> only).
\<close>

fun fdiv_pos :: "pyfloat \<Rightarrow> rat \<Rightarrow> pyfloat" where
  "fdiv_pos (Fin a) c = rnd (a / c)"
| "fdiv_pos PInf c = PInf"
| "fdiv_pos NInf c = NInf"
| "fdiv_pos NaN c = NaN"

text \<open>Comparisons; every comparison with a NaN is false.\<close>

fun flt :: "pyfloat \<Rightarrow> pyfloat \<Rightarrow> bool" where
  "flt (Fin a) (Fin b) = (a < b)"
| "flt NaN _ = False"
| "flt _ NaN = False"
| "flt _ NInf = False"
| "flt PInf _ = False"
| "flt NInf _ = True"
| "flt _ PInf = True"

fun fle :: "pyfloat \<Rightarrow> pyfloat \<Rightarrow> bool" where
  "fle (Fin a) (Fin b) = (a \<le> b)"
| "fle NaN _ = False"
| "fle _ NaN = False"
| "fle NInf _ = True"
| "fle _ PInf = True"
| "fle PInf _ = False"
| "fle _ NInf = False"

text \<open>\<open>int(x)\<close> of a float truncates towards zero and raises on an infinity or a NaN.\<close>

definition trunc :: "rat \<Rightarrow> int" where
  "trunc x = (if 0 \<le> x then \<lfloor>x\<rfloor> else \<lceil>x\<rceil>)"

fun int_of_float :: "pyfloat \<Rightarrow> error + int" where
  "int_of_float (Fin a) = Inr (trunc a)"
| "int_of_float PInf = Inl OverflowError"
| "int_of_float NInf = Inl OverflowError"
| "int_of_float NaN = Inl ValueError"

text \<open>
  An integer operand of a float operation is converted to the nearest binary64 value;
  an integer beyond the binary64 range raises \<open>OverflowError\<close>.
\<close>

definition float_of_int :: "int \<Rightarrow> error + pyfloat" where
  "float_of_int n =
     (case rnd (of_int n) of
        Fin a \<Rightarrow> Inr (Fin a)
      | _ \<Rightarrow> Inl OverflowError)"


section \<open>Flood impact on population (\<open>FloodImpactFunction.run\<close>)\<close>

text \<open>
  A raster layer as the function reads it: its name, its keywords, the cells of
  \<open>get_data(nan=0.0)\<close> and of \<open>get_data(nan=0.0, scaling=True)\<close> in row-major order,
  and \<open>get_resolution(native=True, isotropic=True)\<close>. The storage classes themselves
  are outside the two source files.
\<close>

record layer =
  layer_name :: string
  layer_keywords :: "(string \<times> string) list"
  cells :: "pyfloat list"
  cells_scaled :: "pyfloat list"
  resolution :: pyfloat

text \<open>
  The argument of \<open>run\<close>: the layer \<open>get_hazard_layer\<close> selects, the layers
  \<open>get_exposure_layers\<close> selects, and \<open>str(layers)\<close>, used in one message.
\<close>

record flood_layers =
  hazard_layer :: layer
  exposure_layers :: "layer list"
  layers_str :: string

text \<open>\<open>sub in s\<close> on Python strings.\<close>

fun contains :: "string \<Rightarrow> string \<Rightarrow> bool" where
  "contains sub [] = (sub = [])"
| "contains sub (c # s) = (take (length sub) (c # s) = sub \<or> contains sub s)"

definition unit_msg :: string where
  "unit_msg = ''Unit for gender ratio must be either '' @ [CHR 0x22] @ ''percent''
       @ [CHR 0x22] @ '' or '' @ [CHR 0x22] @ ''ratio'' @ [CHR 0x22]"

text \<open>
  The loop over the exposure layers (lines 43 to 63). The state is \<open>population\<close> and
  \<open>gender_ratio\<close> together with \<open>gender_ratio_unit\<close>; a missing \<open>unit\<close> keyword is the
  \<open>KeyError\<close> of \<open>keywords['unit']\<close>.
\<close>

fun scan_exposure ::
  "layer list \<Rightarrow> layer option \<times> (layer \<times> string) option
     \<Rightarrow> error + layer option \<times> (layer \<times> string) option" where
  "scan_exposure [] st = Inr st"
| "scan_exposure (l # ls) (population, gender_ratio) =
     (case map_of (layer_keywords l) ''datatype'' of
        None \<Rightarrow> scan_exposure ls (Some l, gender_ratio)
      | Some datatype \<Rightarrow>
          if \<not> contains ''ratio'' datatype then scan_exposure ls (Some l, gender_ratio)
          else (case map_of (layer_keywords l) ''unit'' of
                  None \<Rightarrow> Inl (KeyError ''unit'')
                | Some gender_ratio_unit \<Rightarrow>
                    if gender_ratio_unit \<notin> set [''percent'', ''ratio'']
                    then Inl (RuntimeError unit_msg)
                    else scan_exposure ls (population, Some (l, gender_ratio_unit))))"

text \<open>The literals \<open>0.1\<close> and \<open>0.0005\<close> are the binary64 values nearest to them.\<close>

definition threshold :: pyfloat where
  "threshold = rnd (1 / 10)"

definition resolution_cutoff :: pyfloat where
  "resolution_cutoff = rnd (5 / 10000)"

definition pixel_area :: rat where
  "pixel_area = 2500"

text \<open>One cell of \<open>numpy.where(D > threshold, P, 0)\<close>.\<close>

definition where_affected :: "pyfloat \<Rightarrow> pyfloat \<Rightarrow> pyfloat" where
  "where_affected d p = (if flt threshold d then p else Fin 0)"

text \<open>One cell of \<open>I\<close> in the branch for a native resolution below \<open>0.0005\<close> (line 80).\<close>

definition impact_legacy :: "pyfloat \<Rightarrow> pyfloat \<Rightarrow> pyfloat" where
  "impact_legacy d p = fmul (fdiv_pos (where_affected d p) 100000) (Fin pixel_area)"

text \<open>One cell of \<open>I\<close> in the generic branch (line 84).\<close>

definition impact_scaled :: "pyfloat \<Rightarrow> pyfloat \<Rightarrow> pyfloat" where
  "impact_scaled d p = where_affected d p"

text \<open>
  An operation on two arrays, cell by cell. The layers are on the same grid; arrays of
  different sizes are numpy's \<open>ValueError\<close> (broadcasting is not used by the function).
\<close>

definition cellwise ::
  "(pyfloat \<Rightarrow> pyfloat \<Rightarrow> pyfloat) \<Rightarrow> pyfloat list \<Rightarrow> pyfloat list \<Rightarrow> error + pyfloat list" where
  "cellwise f xs ys =
     (if length xs = length ys then Inr (map2 f xs ys) else Inl ValueError)"

text \<open>The gender breakdown (lines 86 to 97).\<close>

record breakdown =
  gender_ratio_cells :: "pyfloat list"
  population_female :: "pyfloat list"
  population_male :: "pyfloat list"
  impact_female :: "pyfloat list"
  impact_male :: "pyfloat list"

definition ratio_cells :: "string \<Rightarrow> pyfloat list \<Rightarrow> pyfloat list" where
  "ratio_cells gender_ratio_unit G =
     (if gender_ratio_unit = ''percent'' then map (\<lambda>g. fdiv_pos g 100) G else G)"

definition gender_breakdown ::
  "string \<Rightarrow> pyfloat list \<Rightarrow> pyfloat list \<Rightarrow> pyfloat list \<Rightarrow> error + breakdown" where
  "gender_breakdown gender_ratio_unit G0 P I =
     (let G = ratio_cells gender_ratio_unit G0 in
      case cellwise fmul P G of Inl e \<Rightarrow> Inl e | Inr P_female \<Rightarrow>
      case cellwise fsub P P_female of Inl e \<Rightarrow> Inl e | Inr P_male \<Rightarrow>
      case cellwise fmul I G of Inl e \<Rightarrow> Inl e | Inr I_female \<Rightarrow>
      case cellwise fsub I I_female of Inl e \<Rightarrow> Inl e | Inr I_male \<Rightarrow>
        Inr \<lparr>gender_ratio_cells = G, population_female = P_female, population_male = P_male,
             impact_female = I_female, impact_male = I_male\<rparr>)"

text \<open>
  What \<open>run\<close> computes up to line 97: the population array it used, the impact array of
  the returned raster, and the breakdown when a gender ratio layer is present. The
  report text built from their sums is not modelled.
\<close>

record flood_result =
  population_cells :: "pyfloat list"
  impact_cells :: "pyfloat list"
  gender :: "breakdown option"

definition flood_run :: "flood_layers \<Rightarrow> error + flood_result" where
  "flood_run layers =
     (case scan_exposure (exposure_layers layers) (None, None) of
        Inl e \<Rightarrow> Inl e
      | Inr (population, gender_ratio) \<Rightarrow>
     (case population of
        None \<Rightarrow> Inl (RuntimeError (''No population layer was found in: '' @ layers_str layers))
      | Some pop \<Rightarrow>
     (let D = cells (hazard_layer layers);
          legacy = flt (resolution pop) resolution_cutoff;
          P = (if legacy then cells pop else cells_scaled pop)
      in case cellwise (if legacy then impact_legacy else impact_scaled) D P of
           Inl e \<Rightarrow> Inl e
         | Inr I \<Rightarrow>
        (case gender_ratio of
           None \<Rightarrow> Inr \<lparr>population_cells = P, impact_cells = I, gender = None\<rparr>
         | Some (g, gender_ratio_unit) \<Rightarrow>
             (case gender_breakdown gender_ratio_unit (cells g) P I of
                Inl e \<Rightarrow> Inl e
              | Inr b \<Rightarrow> Inr \<lparr>population_cells = P, impact_cells = I, gender = Some b\<rparr>)))))"


section \<open>Volcano impact on population (\<open>VolcanoPolygonHazardPopulation.run\<close>)\<close>

subsection \<open>Layers and collaborators\<close>

text \<open>
  The value of a feature's category attribute, and a category name of the report: a
  zone name (attribute \<open>KRB\<close>) or a number (a radius).
\<close>

datatype category = Label string | Number int

text \<open>
  The hazard layer as the function reads it. Of the attribute table \<open>H.get_data()\<close> the
  model keeps, for every feature, the value of the category attribute; the function
  reads it only after it has checked that the layer has that attribute.
\<close>

record hazard =
  hazard_name :: string
  geometry_name :: string
  is_vector :: bool
  is_polygon_data :: bool
  is_point_data :: bool
  attribute_names :: "string list"
  features :: "category list"

text \<open>The exposure raster: its name and \<open>numpy.sum(E.get_data(nan=0))\<close>.\<close>

record exposure =
  exposure_name :: string
  exposure_sum :: pyfloat

text \<open>One record of the joined layer \<open>P.get_data()\<close>.\<close>

record sample =
  sample_population :: pyfloat
  polygon_id :: nat

text \<open>
  The functions \<open>run\<close> calls that are defined outside the two source files
  (\<open>safe.engine.interpolation\<close> and \<open>safe.common.utilities\<close>) are arguments of the model.
\<close>

record 'i collaborators =
  make_circular_polygon :: "hazard \<Rightarrow> int list \<Rightarrow> hazard"
  assign_hazard_values_to_exposure_data :: "hazard \<Rightarrow> exposure \<Rightarrow> sample list"
  create_classes :: "pyfloat list \<Rightarrow> nat \<Rightarrow> error + pyfloat list"
  humanize_class :: "pyfloat list \<Rightarrow> 'i list"
  create_label :: "'i \<Rightarrow> string"

text \<open>
  Modelled from the spec: \<open>round_thousand\<close> of \<open>safe.common.utilities\<close> is not among the
  source files. The specification says of it that a value is "rounded to the nearest
  thousand using round-half-up semantics".
\<close>

definition round_thousand :: "int \<Rightarrow> int" where
  "round_thousand n = (n + 500) div 1000 * 1000"

subsection \<open>Counting the population per polygon and per category\<close>

record polygon =
  category_value :: category
  population :: pyfloat

text \<open>Lines 145 to 151: a population count of zero for every polygon and category.\<close>

definition initial_attributes :: "category list \<Rightarrow> polygon list" where
  "initial_attributes cats = map (\<lambda>c. \<lparr>category_value = c, population = Fin 0\<rparr>) cats"

fun initial_categories ::
  "polygon list \<Rightarrow> (category \<rightharpoonup> pyfloat) \<Rightarrow> (category \<rightharpoonup> pyfloat)" where
  "initial_categories [] categories = categories"
| "initial_categories (attr # attrs) categories =
     initial_categories attrs (categories(category_value attr \<mapsto> Fin 0))"

text \<open>The state in which \<open>run\<close> starts to count (lines 145 to 151).\<close>

definition initial_count :: "category list \<Rightarrow> polygon list \<times> (category \<rightharpoonup> pyfloat)" where
  "initial_count zones =
     (initial_attributes zones, initial_categories (initial_attributes zones) Map.empty)"

text \<open>
  Lines 155 to 165. An index outside the list is Python's \<open>IndexError\<close>, a category
  without an entry its \<open>KeyError\<close>.
\<close>

fun count_population ::
  "sample list \<Rightarrow> polygon list \<times> (category \<rightharpoonup> pyfloat)
     \<Rightarrow> error + polygon list \<times> (category \<rightharpoonup> pyfloat)" where
  "count_population [] st = Inr st"
| "count_population (attr # attrs) (new_attributes, categories) =
     (let pop = sample_population attr;
          poly_id = polygon_id attr
      in if \<not> poly_id < length new_attributes then Inl IndexError
         else
           let poly = new_attributes ! poly_id;
               new_attributes' =
                 new_attributes[poly_id := poly\<lparr>population := fadd (population poly) pop\<rparr>];
               cat = category_value (new_attributes' ! poly_id)
           in case categories cat of
                None \<Rightarrow> Inl (KeyError ''category'')
              | Some c \<Rightarrow> count_population attrs (new_attributes', categories(cat \<mapsto> fadd c pop)))"

subsection \<open>Number and cumulative number for each zone\<close>

text \<open>Lines 178 to 181; \<open>name * 1000\<close> on a string repeats it.\<close>

definition category_key :: "string \<Rightarrow> category \<Rightarrow> category" where
  "category_key category_title name =
     (if category_title = ''Radius'' then
        (case name of
           Number r \<Rightarrow> Number (r * 1000)
         | Label s \<Rightarrow> Label (concat (replicate 1000 s)))
      else name)"

text \<open>\<open>categories.get(key, 0)\<close>.\<close>

definition category_total :: "(category \<rightharpoonup> pyfloat) \<Rightarrow> category \<Rightarrow> pyfloat" where
  "category_total categories k = (case categories k of None \<Rightarrow> Fin 0 | Some v \<Rightarrow> v)"

text \<open>Lines 174 to 191; the state is \<open>cum\<close>, \<open>pops\<close> and \<open>cums\<close>.\<close>

fun count_cumulative ::
  "string \<Rightarrow> (category \<rightharpoonup> pyfloat) \<Rightarrow> category list
     \<Rightarrow> int \<times> (category \<rightharpoonup> int) \<times> (category \<rightharpoonup> int)
     \<Rightarrow> error + int \<times> (category \<rightharpoonup> int) \<times> (category \<rightharpoonup> int)" where
  "count_cumulative category_title categories [] st = Inr st"
| "count_cumulative category_title categories (name # names) (cum, pops, cums) =
     (case int_of_float (category_total categories (category_key category_title name)) of
        Inl e \<Rightarrow> Inl e
      | Inr pop0 \<Rightarrow>
          let pop = round_thousand pop0;
              cum' = round_thousand (cum + pop)
          in count_cumulative category_title categories names
               (cum', pops(name \<mapsto> pop), cums(name \<mapsto> cum')))"

subsection \<open>Estimated needs\<close>

record needs =
  rice :: int
  drinking_water :: int
  water :: int
  family_kits :: int
  toilets :: int

text \<open>\<open>int(evacuated * c)\<close> for a float literal \<open>c\<close>, here given by its decimal value.\<close>

definition int_times_float :: "int \<Rightarrow> rat \<Rightarrow> error + int" where
  "int_times_float n c =
     (case float_of_int n of
        Inl e \<Rightarrow> Inl e
      | Inr x \<Rightarrow> int_of_float (fmul x (rnd c)))"

text \<open>
  Lines 199 to 203. The source is Python 2 (it uses the \<open>print\<close> statement and
  \<open>xrange\<close>) and \<open>evacuated\<close> is an integer, so \<open>evacuated / 5\<close> is the floor division of
  integers and \<open>evacuated * 67\<close> is exact.
\<close>

definition estimated_needs :: "int \<Rightarrow> error + needs" where
  "estimated_needs evacuated =
     (case int_times_float evacuated (28 / 10) of Inl e \<Rightarrow> Inl e | Inr r \<Rightarrow>
      case int_times_float evacuated (175 / 10) of Inl e \<Rightarrow> Inl e | Inr d \<Rightarrow>
        Inr \<lparr>rice = r, drinking_water = d, water = evacuated * 67,
             family_kits = evacuated div 5, toilets = evacuated div 20\<rparr>)"

subsection \<open>Style\<close>

definition colours :: "string list" where
  "colours = [''#FFFFFF'', ''#38A800'', ''#79C900'', ''#CEED00'',
              ''#FFCC00'', ''#FF6600'', ''#FF0000'', ''#7A0000'']"

record style_class =
  label :: string
  class_min :: pyfloat
  transparency :: int
  colour :: string
  class_max :: pyfloat

text \<open>The body of the loop of lines 257 to 269 for one \<open>i\<close> below \<open>len(colours)\<close>.\<close>

definition style_class_at ::
  "('i \<Rightarrow> string) \<Rightarrow> pyfloat list \<Rightarrow> 'i list \<Rightarrow> nat \<Rightarrow> error + style_class" where
  "style_class_at label_of classes interval_classes i =
     (if i < length interval_classes \<and> i < length classes then
        Inr \<lparr>label = label_of (interval_classes ! i),
             class_min = (if i = 0 then Fin 0 else classes ! (i - 1)),
             transparency = (if i = 0 then 100 else 30),
             colour = colours ! i,
             class_max = classes ! i\<rparr>
      else Inl IndexError)"

fun style_loop ::
  "('i \<Rightarrow> string) \<Rightarrow> pyfloat list \<Rightarrow> 'i list \<Rightarrow> nat list \<Rightarrow> style_class list
     \<Rightarrow> error + style_class list" where
  "style_loop label_of classes interval_classes [] style_classes = Inr style_classes"
| "style_loop label_of classes interval_classes (i # is) style_classes =
     (case style_class_at label_of classes interval_classes i of
        Inl e \<Rightarrow> Inl e
      | Inr style_class \<Rightarrow>
          style_loop label_of classes interval_classes is (style_classes @ [style_class]))"

definition create_style ::
  "'i collaborators \<Rightarrow> polygon list \<Rightarrow> error + style_class list" where
  "create_style ext new_attributes =
     (let population_counts = map population new_attributes in
      case create_classes ext population_counts (length colours) of
        Inl e \<Rightarrow> Inl e
      | Inr classes \<Rightarrow>
          style_loop (create_label ext) classes (humanize_class ext classes)
            [0 ..< length colours] [])"

subsection \<open>The run\<close>

definition distance_km :: "int list" where
  "distance_km = [3, 5, 10]"

definition krb_names :: "category list" where
  "krb_names = [Label ''Kawasan Rawan Bencana III'',
                Label ''Kawasan Rawan Bencana II'',
                Label ''Kawasan Rawan Bencana I'']"

text \<open>
  The returned vector layer: its attribute table and style, and the numbers of the
  report (the tables themselves and the volcano names are text and are not modelled).
\<close>

record volcano_result =
  new_attributes :: "polygon list"
  total :: int
  pops :: "category \<rightharpoonup> int"
  cums :: "category \<rightharpoonup> int"
  evacuated :: int
  minimum_needs :: needs
  style_classes :: "style_class list"

text \<open>Lines 140 to 294, once the hazard polygons and the category names are fixed.\<close>

definition evacuation ::
  "'i collaborators \<Rightarrow> hazard \<Rightarrow> exposure \<Rightarrow> string \<Rightarrow> category list
     \<Rightarrow> error + volcano_result" where
  "evacuation ext H E category_title category_names =
     (case count_population (assign_hazard_values_to_exposure_data ext H E)
             (initial_count (features H)) of Inl e \<Rightarrow> Inl e
      | Inr (attrs, categories) \<Rightarrow>
      case int_of_float (exposure_sum E) of Inl e \<Rightarrow> Inl e
      | Inr t \<Rightarrow>
      case count_cumulative category_title categories category_names
             (0, Map.empty, Map.empty) of Inl e \<Rightarrow> Inl e
      | Inr (cum, ps, cs) \<Rightarrow>
      case estimated_needs cum of Inl e \<Rightarrow> Inl e
      | Inr n \<Rightarrow>
      case create_style ext attrs of Inl e \<Rightarrow> Inl e
      | Inr sc \<Rightarrow>
          Inr \<lparr>new_attributes = attrs, total = round_thousand t, pops = ps, cums = cs,
               evacuated = cum, minimum_needs = n, style_classes = sc\<rparr>)"

text \<open>Lines 72 to 137: the input checks and the choice between points and polygons.\<close>

definition volcano_run ::
  "'i collaborators \<Rightarrow> hazard \<Rightarrow> exposure \<Rightarrow> error + volcano_result" where
  "volcano_run ext H E =
     (if \<not> is_vector H then
        Inl (Exception (''Input hazard '' @ hazard_name H
                          @ ''  was not a vector layer as expected ''))
      else if \<not> (is_polygon_data H \<or> is_point_data H) then
        Inl (Exception (''Input hazard must be a polygon or point layer. I got ''
                          @ hazard_name H @ '' with layer type '' @ geometry_name H))
      else
        let radii = distance_km;
            (H', category_title, category_names) =
              (if is_point_data H
               then (make_circular_polygon ext H (map (\<lambda>x. x * 1000) radii),
                     ''Radius'', map Number radii)
               else (H, ''KRB'', krb_names))
        in if category_title \<notin> set (attribute_names H') then
             Inl (InaSAFEError (''Hazard data '' @ hazard_name H'
                                  @ '' did not contain expected attribute ''
                                  @ category_title @ '' ''))
           else evacuation ext H' E category_title category_names)"

section \<open>Notions used in the statements\<close>

text \<open>A finite float and the rational it denotes.\<close>

definition is_finite :: "pyfloat \<Rightarrow> bool" where
  "is_finite x = (case x of Fin v \<Rightarrow> True | _ \<Rightarrow> False)"

definition value_of :: "pyfloat \<Rightarrow> rat" where
  "value_of x = (case x of Fin v \<Rightarrow> v | _ \<Rightarrow> 0)"


text \<open>
  An exposure layer that the loop of the flood function takes for the gender ratio: it
  has a \<open>datatype\<close> keyword that contains \<open>ratio\<close>; and the unit it declares.
\<close>

definition is_ratio_layer :: "layer \<Rightarrow> bool" where
  "is_ratio_layer l =
     (case map_of (layer_keywords l) ''datatype'' of
        None \<Rightarrow> False
      | Some datatype \<Rightarrow> contains ''ratio'' datatype)"

definition declared_unit :: "layer \<Rightarrow> string option" where
  "declared_unit l = map_of (layer_keywords l) ''unit''"

text \<open>Every gender ratio layer of a list declares the unit \<open>percent\<close> or \<open>ratio\<close>.\<close>

definition units_accepted :: "layer list \<Rightarrow> bool" where
  "units_accepted ls =
     (\<forall>l\<in>set ls. is_ratio_layer l \<longrightarrow> declared_unit l \<in> {Some ''percent'', Some ''ratio''})"

text \<open>
  The rounded population of one category: \<open>round_thousand(int(categories.get(key, 0)))\<close>
  for a finite total.
\<close>

definition rounded_total :: "string \<Rightarrow> (category \<rightharpoonup> pyfloat) \<Rightarrow> category \<Rightarrow> int" where
  "rounded_total category_title categories name =
     round_thousand
       (trunc (value_of (category_total categories (category_key category_title name))))"


text \<open>A joined sample whose polygon has one of the given category names.\<close>

definition in_named_zone :: "category list \<Rightarrow> category list \<Rightarrow> sample \<Rightarrow> bool" where
  "in_named_zone zones names s = (zones ! polygon_id s \<in> set names)"



text \<open>Example layers for the flood function.\<close>

definition example_population :: layer where
  "example_population =
     \<lparr>layer_name = ''population'', layer_keywords = [(''category'', ''exposure'')],
      cells = [Fin 50], cells_scaled = [Fin 50], resolution = Fin 1\<rparr>"

definition example_gender :: "(string \<times> string) list \<Rightarrow> layer" where
  "example_gender units =
     \<lparr>layer_name = ''gender'', layer_keywords = (''datatype'', ''female ratio'') # units,
      cells = [Fin 52], cells_scaled = [Fin 52], resolution = Fin 1\<rparr>"

definition example_layers :: "layer list \<Rightarrow> flood_layers" where
  "example_layers exposure =
     \<lparr>hazard_layer = \<lparr>layer_name = ''flood'', layer_keywords = [], cells = [Fin 1],
                       cells_scaled = [Fin 1], resolution = Fin 1\<rparr>,
      exposure_layers = exposure, layers_str = ''[]''\<rparr>"


text \<open>
  An example, after scenario 2 of the specification: three rings of 3, 5 and 10 km
  around a vent, with a population of 1000 in the first ring and 4000 in the second.
\<close>

definition example_ext :: "string collaborators" where
  "example_ext =
     \<lparr>make_circular_polygon = (\<lambda>H radii. H),
      assign_hazard_values_to_exposure_data =
        (\<lambda>H E. [\<lparr>sample_population = Fin 1000, polygon_id = 0\<rparr>,
                 \<lparr>sample_population = Fin 4000, polygon_id = 1\<rparr>]),
      create_classes = (\<lambda>counts n. Inr (replicate n (Fin 4000))),
      humanize_class = (\<lambda>classes. map (\<lambda>c. ''0 - 4000'') classes),
      create_label = (\<lambda>interval. interval)\<rparr>"

definition example_rings :: hazard where
  "example_rings =
     \<lparr>hazard_name = ''Merapi'', geometry_name = ''polygon'', is_vector = True,
      is_polygon_data = True, is_point_data = False,
      attribute_names = [''Radius'', ''NAME''],
      features = [Number 3000, Number 5000, Number 10000]\<rparr>"

definition example_totals :: "category \<rightharpoonup> pyfloat" where
  "example_totals =
     [Number 3000 \<mapsto> Fin 1000, Number 5000 \<mapsto> Fin 4000, Number 10000 \<mapsto> Fin 0]"


section \<open>Properties of binary64 rounding\<close>



lemma bit_length_0 [simp]: "bit_length 0 = 0"
  by (simp add: bit_length.simps)

lemma bit_length_pos: "0 < n \<Longrightarrow> bit_length n = Suc (bit_length (n div 2))"
  by (subst bit_length.simps) simp

lemma bit_length_upper: "n < 2 ^ bit_length n"
proof (induction n rule: bit_length.induct)
  case (1 n)
  show ?case
  proof (cases "n = 0")
    case True
    then show ?thesis by simp
  next
    case False
    with 1 have "n div 2 < 2 ^ bit_length (n div 2)" by simp
    then have "n < 2 * 2 ^ bit_length (n div 2)" by linarith
    with False show ?thesis by (simp add: bit_length_pos)
  qed
qed

lemma bit_length_lower: "0 < n \<Longrightarrow> 2 ^ (bit_length n - 1) \<le> n"
proof (induction n rule: bit_length.induct)
  case (1 n)
  show ?case
  proof (cases "n div 2 = 0")
    case True
    with "1.prems" have "n = 1" by linarith
    then show ?thesis by (simp add: bit_length_pos)
  next
    case False
    with 1 have "2 ^ (bit_length (n div 2) - 1) \<le> n div 2" by simp
    then have "2 * 2 ^ (bit_length (n div 2) - 1) \<le> n" by linarith
    moreover from False have "0 < bit_length (n div 2)"
      by (simp add: bit_length_pos)
    ultimately show ?thesis
      using "1.prems" by (simp add: bit_length_pos flip: power_Suc)
  qed
qed

lemma bit_length_eqI:
  assumes "2 ^ k \<le> n" and "n < 2 ^ Suc k"
  shows "bit_length n = Suc k"
proof -
  have pos: "0 < n"
    using assms(1) by (metis gr0I not_le zero_less_numeral zero_less_power)
  have "(2::nat) ^ k < 2 ^ bit_length n"
    using assms(1) bit_length_upper [of n] by linarith
  then have 1: "k < bit_length n" by simp
  have "(2::nat) ^ (bit_length n - 1) < 2 ^ Suc k"
    using bit_length_lower [OF pos] assms(2) by linarith
  then have "bit_length n - 1 < Suc k" by (simp only: power_strict_increasing_iff one_less_numeral_iff semiring_norm)
  with 1 show ?thesis by linarith
qed

lemma bit_length_le: "n < 2 ^ k \<Longrightarrow> bit_length n \<le> k"
proof (cases "n = 0")
  case True
  then show ?thesis by simp
next
  case False
  assume "n < 2 ^ k"
  with bit_length_lower [of n] False have "(2::nat) ^ (bit_length n - 1) < 2 ^ k"
    by linarith
  then have "bit_length n - 1 < k"
    by (simp only: power_strict_increasing_iff one_less_numeral_iff semiring_norm)
  then show ?thesis by linarith
qed

lemma bit_length_mono: "m \<le> n \<Longrightarrow> bit_length m \<le> bit_length n"
  using bit_length_le [of m "bit_length n"] bit_length_upper [of n] by simp


lemma rhe_cases: "round_half_even y = \<lfloor>y\<rfloor> \<or> round_half_even y = \<lfloor>y\<rfloor> + 1"
  by (simp add: round_half_even_def Let_def)

lemma rhe_of_int [simp]: "round_half_even (of_int m) = m"
  by (simp add: round_half_even_def)

lemma rhe_upper: "of_int (round_half_even y) \<le> y + 1 / 2"
proof -
  let ?d = "y - of_int \<lfloor>y\<rfloor>"
  consider "?d < 1 / 2" | "1 / 2 < ?d" | "?d = 1 / 2" by linarith
  then show ?thesis
  proof cases
    case 1
    then have "round_half_even y = \<lfloor>y\<rfloor>" by (simp add: round_half_even_def Let_def)
    then show ?thesis using 1 by linarith
  next
    case 2
    then have "round_half_even y = \<lfloor>y\<rfloor> + 1" by (simp add: round_half_even_def Let_def)
    then show ?thesis using 2 by simp
  next
    case 3
    then show ?thesis using rhe_cases [of y] by auto
  qed
qed

lemma rhe_lower: "y - 1 / 2 \<le> of_int (round_half_even y)"
proof -
  let ?d = "y - of_int \<lfloor>y\<rfloor>"
  consider "?d < 1 / 2" | "1 / 2 < ?d" | "?d = 1 / 2" by linarith
  then show ?thesis
  proof cases
    case 1
    then have "round_half_even y = \<lfloor>y\<rfloor>" by (simp add: round_half_even_def Let_def)
    then show ?thesis using 1 by simp
  next
    case 2
    then have "round_half_even y = \<lfloor>y\<rfloor> + 1" by (simp add: round_half_even_def Let_def)
    then show ?thesis using floor_correct [of y] by simp
  next
    case 3
    then show ?thesis using rhe_cases [of y] by auto
  qed
qed

lemma rhe_mono:
  assumes "x \<le> y"
  shows "round_half_even x \<le> round_half_even y"
proof (cases "\<lfloor>x\<rfloor> = \<lfloor>y\<rfloor>")
  case True
  let ?f = "\<lfloor>y\<rfloor>"
  let ?dx = "x - of_int ?f" and ?dy = "y - of_int ?f"
  have le: "?dx \<le> ?dy" using assms by simp
  have x: "round_half_even x =
             (if ?dx < 1 / 2 then ?f else if 1 / 2 < ?dx then ?f + 1
              else if even ?f then ?f else ?f + 1)"
    by (simp add: round_half_even_def Let_def True)
  have y: "round_half_even y =
             (if ?dy < 1 / 2 then ?f else if 1 / 2 < ?dy then ?f + 1
              else if even ?f then ?f else ?f + 1)"
    by (simp add: round_half_even_def Let_def)
  consider "?dx < 1 / 2" | "1 / 2 < ?dx" | "?dx = 1 / 2" by linarith
  then show ?thesis
  proof cases
    case 1
    then have "round_half_even x = ?f" by (simp only: x if_True)
    then show ?thesis using rhe_cases [of y] by linarith
  next
    case 2
    with le have "1 / 2 < ?dy" by linarith
    with 2 x y show ?thesis by simp
  next
    case 3
    with le have "?dy = 1 / 2 \<or> 1 / 2 < ?dy" by linarith
    with 3 x y show ?thesis by auto
  qed
next
  case False
  with assms have "\<lfloor>x\<rfloor> < \<lfloor>y\<rfloor>"
    by (simp add: floor_mono order.strict_iff_order)
  moreover have "round_half_even x \<le> \<lfloor>x\<rfloor> + 1"
    using rhe_cases [of x] by linarith
  moreover have "\<lfloor>y\<rfloor> \<le> round_half_even y"
    using rhe_cases [of y] by linarith
  ultimately show ?thesis by linarith
qed

lemma rhe_le_int: "y \<le> of_int m \<Longrightarrow> round_half_even y \<le> m"
  using rhe_mono [of y "of_int m"] by simp

lemma rhe_ge_int: "of_int m \<le> y \<Longrightarrow> m \<le> round_half_even y"
  using rhe_mono [of "of_int m" y] by simp

lemma rhe_minus: "round_half_even (- y) = - round_half_even y"
proof (cases "y = of_int \<lfloor>y\<rfloor>")
  case True
  then obtain m where m: "y = of_int m" ..
  then have "- y = of_int (- m)" by simp
  then have "round_half_even (- y) = - m" by (simp only: rhe_of_int)
  then show ?thesis
    by (simp add: m)
next
  case False
  let ?f = "\<lfloor>y\<rfloor>"
  let ?d = "y - of_int ?f"
  have d: "0 < ?d" "?d < 1"
    using False floor_correct [of y] by (auto simp add: order.strict_iff_order)
  have fl: "\<lfloor>- y\<rfloor> = - ?f - 1"
    by (rule floor_unique) (use d in simp_all)
  have nd: "- y - of_int (- ?f - 1) = 1 - ?d" by simp
  have n: "round_half_even (- y) =
             (if 1 - ?d < 1 / 2 then - ?f - 1 else if 1 / 2 < 1 - ?d then - ?f
              else if even (- ?f - 1) then - ?f - 1 else - ?f)"
    unfolding round_half_even_def Let_def fl nd by simp
  have p: "round_half_even y =
             (if ?d < 1 / 2 then ?f else if 1 / 2 < ?d then ?f + 1
              else if even ?f then ?f else ?f + 1)"
    by (simp add: round_half_even_def Let_def)
  consider "?d < 1 / 2" | "1 / 2 < ?d" | "?d = 1 / 2" by linarith
  then show ?thesis
  proof cases
    case 1
    then have "\<not> 1 - ?d < 1 / 2" "1 / 2 < 1 - ?d" by linarith+
    with 1 n p show ?thesis by simp
  next
    case 2
    then have "1 - ?d < 1 / 2" "\<not> ?d < 1 / 2" by linarith+
    with 2 n p show ?thesis by simp
  next
    case 3
    then have "\<not> 1 - ?d < 1 / 2" "\<not> 1 / 2 < 1 - ?d" "\<not> ?d < 1 / 2" "\<not> 1 / 2 < ?d"
      by linarith+
    with n p show ?thesis by simp
  qed
qed


lemma quantum_pos: "0 < quantum y"
  by (simp add: quantum_def)

lemma quantum_minus [simp]: "quantum (- y) = quantum y"
  by (simp add: quantum_def)

lemma round_units_minus: "round_units (- y) = - round_units y"
  by (simp add: round_units_def rhe_minus)

lemma nat_floor_less_pow:
  fixes y :: rat
  shows "\<bar>y\<bar> < 2 ^ k \<Longrightarrow> nat \<lfloor>\<bar>y\<bar>\<rfloor> < 2 ^ k"
proof -
  assume "\<bar>y\<bar> < 2 ^ k"
  then have "\<lfloor>\<bar>y\<bar>\<rfloor> < 2 ^ k"
    by (simp add: floor_less_iff)
  then show ?thesis
    by (simp add: nat_less_iff)
qed

lemma nat_floor_ge_pow:
  fixes y :: rat
  shows "2 ^ k \<le> \<bar>y\<bar> \<Longrightarrow> 2 ^ k \<le> nat \<lfloor>\<bar>y\<bar>\<rfloor>"
proof -
  assume "2 ^ k \<le> \<bar>y\<bar>"
  then have "2 ^ k \<le> \<lfloor>\<bar>y\<bar>\<rfloor>"
    by (simp add: le_floor_iff)
  then show ?thesis
    by (simp add: le_nat_iff)
qed

lemma quantum_small: "\<bar>y\<bar> < 2 ^ 53 \<Longrightarrow> quantum y = 1"
  using bit_length_le [OF nat_floor_less_pow, of y 53] by (simp add: quantum_def)

lemma quantum_binade:
  assumes "2 ^ (52 + k) \<le> \<bar>y\<bar>" and "\<bar>y\<bar> < 2 ^ (53 + k)"
  shows "quantum y = 2 ^ k"
proof -
  have "bit_length (nat \<lfloor>\<bar>y\<bar>\<rfloor>) = Suc (52 + k)"
    using nat_floor_ge_pow [OF assms(1)] nat_floor_less_pow [OF assms(2)]
    by (intro bit_length_eqI) simp_all
  then show ?thesis by (simp add: quantum_def)
qed

lemma bit_length_pos_iff: "0 < bit_length n \<longleftrightarrow> 0 < n"
  by (cases "n = 0") (simp_all add: bit_length_pos)

lemma quantum_le: "quantum y = 1 \<or> of_nat (quantum y) * 2 ^ 52 \<le> \<bar>y\<bar>"
proof (cases "bit_length (nat \<lfloor>\<bar>y\<bar>\<rfloor>) \<le> 53")
  case True
  then show ?thesis by (simp add: quantum_def)
next
  case False
  define n where "n = nat \<lfloor>\<bar>y\<bar>\<rfloor>"
  define b where "b = bit_length n"
  have b: "53 < b" using False by (simp add: b_def n_def)
  then have "0 < bit_length n" by (simp add: b_def)
  then have pos: "0 < n" by (simp only: bit_length_pos_iff)
  have "2 ^ (b - 1) \<le> n"
    unfolding b_def using pos by (rule bit_length_lower)
  moreover have "(2::nat) ^ (b - 1) = 2 ^ (b - 53) * 2 ^ 52"
  proof -
    have "b - 1 = (b - 53) + 52" using b by linarith
    then show ?thesis by (simp only: power_add)
  qed
  ultimately have "2 ^ (b - 53) * 2 ^ 52 \<le> n" by (simp only:)
  then have "(of_nat (2 ^ (b - 53) * 2 ^ 52) :: rat) \<le> of_nat n"
    by (simp only: of_nat_le_iff)
  also have "(of_nat n :: rat) \<le> \<bar>y\<bar>"
    by (simp add: n_def)
  finally have "(of_nat (2 ^ (b - 53)) :: rat) * 2 ^ 52 \<le> \<bar>y\<bar>"
    by simp
  moreover have "quantum y = 2 ^ (b - 53)"
    by (simp add: quantum_def b_def n_def)
  ultimately show ?thesis by simp
qed

lemma round_units_error: "\<bar>of_int (round_units y) - y\<bar> \<le> of_nat (quantum y) / 2"
proof -
  let ?q = "of_nat (quantum y) :: rat"
  have q: "0 < ?q" using quantum_pos [of y] by simp
  have "\<bar>of_int (round_half_even (y / ?q)) - y / ?q\<bar> \<le> 1 / 2"
    using rhe_upper [of "y / ?q"] rhe_lower [of "y / ?q"] by linarith
  then have "\<bar>of_int (round_half_even (y / ?q)) - y / ?q\<bar> * ?q \<le> 1 / 2 * ?q"
    using q by (simp only: mult_le_cancel_right_pos)
  moreover have "\<bar>of_int (round_half_even (y / ?q)) - y / ?q\<bar> * ?q
                   = \<bar>of_int (round_units y) - y\<bar>"
  proof -
    have "\<bar>of_int (round_half_even (y / ?q)) - y / ?q\<bar> * ?q
            = \<bar>(of_int (round_half_even (y / ?q)) - y / ?q) * ?q\<bar>"
      using q by (simp add: abs_mult)
    also have "(of_int (round_half_even (y / ?q)) - y / ?q) * ?q = of_int (round_units y) - y"
      using q by (simp add: round_units_def left_diff_distrib)
    finally show ?thesis .
  qed
  ultimately show ?thesis by simp
qed

lemma round_units_le:
  assumes "y \<le> of_int (M * int (quantum y))"
  shows "round_units y \<le> M * int (quantum y)"
proof -
  let ?q = "of_nat (quantum y) :: rat"
  have q: "0 < ?q" using quantum_pos [of y] by simp
  have "y / ?q \<le> of_int M"
    using assms q by (simp add: pos_divide_le_eq)
  then have "round_half_even (y / ?q) \<le> M" by (rule rhe_le_int)
  then show ?thesis
    by (simp add: round_units_def mult_right_mono)
qed

lemma round_units_ge:
  assumes "of_int (M * int (quantum y)) \<le> y"
  shows "M * int (quantum y) \<le> round_units y"
proof -
  let ?q = "of_nat (quantum y) :: rat"
  have q: "0 < ?q" using quantum_pos [of y] by simp
  have "of_int M \<le> y / ?q"
    using assms q by (simp add: pos_le_divide_eq)
  then have "M \<le> round_half_even (y / ?q)" by (rule rhe_ge_int)
  then show ?thesis
    by (simp add: round_units_def mult_right_mono)
qed

lemma rhe_0 [simp]: "round_half_even 0 = 0"
  by (simp add: round_half_even_def)

lemma round_units_0 [simp]: "round_units 0 = 0"
  by (simp add: round_units_def)

lemma round_units_nonneg: "0 \<le> y \<Longrightarrow> 0 \<le> round_units y"
  using round_units_ge [of 0 y] by simp


lemma round_units_mono_nonneg:
  assumes "0 \<le> x" and "x \<le> y"
  shows "round_units x \<le> round_units y"
proof -
  define bx where "bx = bit_length (nat \<lfloor>\<bar>x\<bar>\<rfloor>)"
  define by' where "by' = bit_length (nat \<lfloor>\<bar>y\<bar>\<rfloor>)"
  have qx: "quantum x = 2 ^ (bx - 53)" by (simp add: quantum_def bx_def)
  have qy: "quantum y = 2 ^ (by' - 53)" by (simp add: quantum_def by'_def)
  have "nat \<lfloor>\<bar>x\<bar>\<rfloor> \<le> nat \<lfloor>\<bar>y\<bar>\<rfloor>"
    using assms by (simp add: floor_mono nat_mono)
  then have le: "bx \<le> by'"
    unfolding bx_def by'_def by (rule bit_length_mono)
  show ?thesis
  proof (cases "bx - 53 = by' - 53")
    case True
    then have q: "quantum x = quantum y" by (simp add: qx qy)
    have "x / of_nat (quantum y) \<le> y / of_nat (quantum y)"
      using assms(2) quantum_pos [of y] by (simp add: divide_right_mono)
    then have "round_half_even (x / of_nat (quantum y)) \<le> round_half_even (y / of_nat (quantum y))"
      by (rule rhe_mono)
    then show ?thesis
      by (simp add: round_units_def q mult_right_mono)
  next
    case False
    with le have lt: "bx < by'" and big: "53 < by'" by linarith+
    define B :: int where "B = 2 ^ (by' - 1)"
    have "0 < bit_length (nat \<lfloor>\<bar>y\<bar>\<rfloor>)" using big by (simp add: by'_def)
    then have pos: "0 < nat \<lfloor>\<bar>y\<bar>\<rfloor>" by (simp only: bit_length_pos_iff)
    have "2 ^ (by' - 1) \<le> nat \<lfloor>\<bar>y\<bar>\<rfloor>"
      unfolding by'_def using pos by (rule bit_length_lower)
    then have "B \<le> \<lfloor>\<bar>y\<bar>\<rfloor>"
      by (simp add: B_def le_nat_iff)
    then have By: "of_int B \<le> y"
      using assms by (simp add: le_floor_iff)
    have "nat \<lfloor>\<bar>x\<bar>\<rfloor> < 2 ^ bx"
      unfolding bx_def by (rule bit_length_upper)
    also have "(2::nat) ^ bx \<le> 2 ^ (by' - 1)"
      using lt by (intro power_increasing) simp_all
    finally have "\<lfloor>\<bar>x\<bar>\<rfloor> < B"
      by (simp add: B_def nat_less_iff)
    then have xB: "x \<le> of_int B"
      using assms(1) by (simp add: floor_less_iff)
    have "bx - 53 \<le> by' - 1" using lt by linarith
    then obtain d where d: "by' - 1 = d + (bx - 53)"
      by (metis le_add_diff_inverse2)
    have Bx: "B = 2 ^ d * int (quantum x)"
      unfolding B_def qx d by (simp add: power_add)
    have By': "B = 2 ^ 52 * int (quantum y)"
    proof -
      have "by' - 1 = 52 + (by' - 53)" using big by linarith
      then have "(2::int) ^ (by' - 1) = 2 ^ 52 * 2 ^ (by' - 53)"
        by (simp only: power_add)
      then show ?thesis by (simp add: B_def qy)
    qed
    have "round_units x \<le> B"
      using round_units_le [of x "2 ^ d"] xB Bx by simp
    moreover have "B \<le> round_units y"
      using round_units_ge [of "2 ^ 52" y] By By' by simp
    ultimately show ?thesis by linarith
  qed
qed

lemma round_units_mono:
  assumes "x \<le> y"
  shows "round_units x \<le> round_units y"
proof -
  consider "0 \<le> x" | "y \<le> 0" | "x < 0" "0 < y" by linarith
  then show ?thesis
  proof cases
    case 1
    then show ?thesis using assms by (rule round_units_mono_nonneg)
  next
    case 2
    then have "round_units (- y) \<le> round_units (- x)"
      using assms by (intro round_units_mono_nonneg) simp_all
    then show ?thesis by (simp add: round_units_minus)
  next
    case 3
    have "round_units (- x) \<ge> 0" using 3 by (intro round_units_nonneg) simp
    then have "round_units x \<le> 0" by (simp add: round_units_minus)
    moreover have "0 \<le> round_units y" using 3 by (intro round_units_nonneg) simp
    ultimately show ?thesis by linarith
  qed
qed

lemma rnd_mono: "x \<le> y \<Longrightarrow> fle (rnd x) (rnd y)"
proof -
  assume "x \<le> y"
  then have "x * 2 ^ 1074 \<le> y * 2 ^ 1074" by simp
  then have "round_units (x * 2 ^ 1074) \<le> round_units (y * 2 ^ 1074)"
    by (rule round_units_mono)
  then show ?thesis
    unfolding rnd_def Let_def by (auto simp add: divide_right_mono)
qed


lemma round_units_exact:
  assumes "\<bar>m\<bar> < 2 ^ 53"
  shows "round_units (of_int (m * 2 ^ k)) = m * 2 ^ k"
proof -
  define y :: rat where "y = of_int (m * 2 ^ k)"
  define j where "j = bit_length (nat \<lfloor>\<bar>y\<bar>\<rfloor>) - 53"
  have q: "quantum y = 2 ^ j" by (simp add: quantum_def j_def)
  have "\<bar>y\<bar> = of_int (\<bar>m\<bar> * 2 ^ k)"
    by (simp add: y_def abs_mult)
  also have "\<dots> < of_int (2 ^ 53 * 2 ^ k)"
    using assms by (simp only: of_int_less_iff mult_less_cancel_right_pos zero_less_power zero_less_numeral)
  finally have "\<bar>y\<bar> < 2 ^ (53 + k)"
    by (simp add: power_add)
  then have "bit_length (nat \<lfloor>\<bar>y\<bar>\<rfloor>) \<le> 53 + k"
    by (intro bit_length_le nat_floor_less_pow)
  then have "j \<le> k" by (simp add: j_def)
  then obtain d where d: "k = d + j"
    by (metis le_add_diff_inverse2)
  have "y / of_nat (quantum y) = y / 2 ^ j"
    by (simp add: q)
  also have "\<dots> = of_int (m * 2 ^ d)"
    by (simp add: y_def d power_add)
  finally have "round_half_even (y / of_nat (quantum y)) = m * 2 ^ d"
    by (simp only: rhe_of_int)
  then have "round_units y = m * 2 ^ d * 2 ^ j"
    by (simp add: round_units_def q)
  then show ?thesis
    by (simp add: y_def d power_add mult.assoc)
qed

lemma rnd_exact:
  assumes "\<bar>m\<bar> < 2 ^ 53" and "k \<le> 2045"
  shows "rnd (of_int (m * 2 ^ k) / 2 ^ 1074) = Fin (of_int (m * 2 ^ k) / 2 ^ 1074)"
proof -
  have "\<bar>m * 2 ^ k\<bar> = \<bar>m\<bar> * 2 ^ k" by (simp add: abs_mult)
  also have "\<dots> < 2 ^ 53 * 2 ^ k"
    using assms(1) by (simp only: mult_less_cancel_right_pos zero_less_power zero_less_numeral)
  also have "\<dots> \<le> 2 ^ 53 * (2::int) ^ 2045"
    using assms(2) by (simp only: mult_le_cancel_left_pos zero_less_power zero_less_numeral
        power_increasing_iff one_less_numeral_iff semiring_norm)
  also have "\<dots> = 2 ^ 2098" by (simp flip: power_add)
  finally have bound: "\<bar>m * 2 ^ k\<bar> < 2 ^ 2098" .
  have "round_units (of_int (m * 2 ^ k) / 2 ^ 1074 * 2 ^ 1074) = m * 2 ^ k"
    using round_units_exact [OF assms(1), of k] by simp
  then show ?thesis
    using bound unfolding rnd_def Let_def by (simp only:) (simp add: abs_less_iff)
qed

lemma rnd_of_int:
  assumes "\<bar>n\<bar> \<le> 2 ^ 53"
  shows "rnd (of_int n) = Fin (of_int n)"
proof (cases "\<bar>n\<bar> = 2 ^ 53")
  case False
  with assms have "\<bar>n\<bar> < 2 ^ 53" by linarith
  from rnd_exact [OF this, of 1074] show ?thesis by simp
next
  case True
  define m where "m = n div 2"
  from True have "n = 2 ^ 53 \<or> n = - (2 ^ 53)" by linarith
  then have m: "\<bar>m\<bar> < 2 ^ 53" "n = m * 2"
    by (auto simp add: m_def)
  from rnd_exact [OF m(1), of 1075] show ?thesis
    by (simp add: m(2) mult.commute)
qed

lemma rnd_0 [simp]: "rnd 0 = Fin 0"
  using rnd_of_int [of 0] by simp

lemma rnd_half_int:
  assumes "\<bar>n\<bar> < 2 ^ 53"
  shows "rnd (of_int n / 2) = Fin (of_int n / 2)"
  using rnd_exact [OF assms, of 1073] by simp


lemma powi_shift: "(2::rat) powi (int n - int m) = 2 ^ n / 2 ^ m"
  by (subst power_int_diff) simp_all

lemma floor_rat_numeral [simp]:
  "\<lfloor>numeral a / numeral b :: rat\<rfloor> = numeral a div numeral b"
  using floor_divide_of_int_eq [of "numeral a" "numeral b", where ?'a = rat] by simp

lemma floor_rat_neg_numeral [simp]:
  "\<lfloor>- (numeral a / numeral b) :: rat\<rfloor> = - numeral a div numeral b"
  using floor_divide_of_int_eq [of "- numeral a" "numeral b", where ?'a = rat] by simp

lemma rnd_normal:
  assumes lo: "2 powi e \<le> \<bar>x\<bar>" and hi: "\<bar>x\<bar> < 2 powi (e + 1)"
    and e_lo: "- 1022 \<le> e" and e_hi: "e \<le> 1022"
  shows "rnd x = Fin (of_int (round_half_even (x / 2 powi (e - 52))) * 2 powi (e - 52))"
proof -
  define k where "k = nat (e + 1022)"
  have e: "e = int k - 1022" using e_lo by (simp add: k_def)
  have k: "k \<le> 2044" using e_hi by (simp add: k_def)
  define y where "y = x * 2 ^ 1074"
  have p0: "(2::rat) powi e = 2 ^ k / 2 ^ 1022"
  proof -
    have "e = int k - int 1022" by (simp add: e)
    then show ?thesis by (simp only: powi_shift)
  qed
  have p1: "(2::rat) powi (e + 1) = 2 ^ (k + 1) / 2 ^ 1022"
  proof -
    have "e + 1 = int (k + 1) - int 1022" by (simp add: e)
    then show ?thesis by (simp only: powi_shift)
  qed
  have p2: "(2::rat) powi (e - 52) = 2 ^ k / 2 ^ 1074"
  proof -
    have "e - 52 = int k - int 1074" by (simp add: e)
    then show ?thesis by (simp only: powi_shift)
  qed
  have split: "(2::rat) ^ 1074 = 2 ^ 1022 * 2 ^ 52"
    by (simp flip: power_add)
  have ay: "\<bar>y\<bar> = \<bar>x\<bar> * 2 ^ 1074" by (simp add: y_def abs_mult)
  have "2 ^ k / 2 ^ 1022 * (2 ^ 1022 * 2 ^ 52) \<le> \<bar>x\<bar> * ((2::rat) ^ 1022 * 2 ^ 52)"
    using lo unfolding p0 by (intro mult_right_mono) simp_all
  then have ylo: "2 ^ (52 + k) \<le> \<bar>y\<bar>"
    unfolding ay split by (simp add: power_add mult.commute)
  have "\<bar>x\<bar> * ((2::rat) ^ 1022 * 2 ^ 52) < 2 ^ (k + 1) / 2 ^ 1022 * (2 ^ 1022 * 2 ^ 52)"
    using hi unfolding p1 by (intro mult_strict_right_mono) simp_all
  then have yhi: "\<bar>y\<bar> < 2 ^ (53 + k)"
    unfolding ay split by (simp add: power_add mult.commute)
  have q: "quantum y = 2 ^ k"
    using ylo yhi by (rule quantum_binade)
  define r where "r = round_half_even (y / 2 ^ k)"
  have arg: "y / 2 ^ k = x / 2 powi (e - 52)"
    by (simp add: p2 y_def)
  have "y / 2 ^ k \<le> of_int (2 ^ 53)"
  proof -
    have "y \<le> 2 ^ 53 * 2 ^ k" using yhi by (simp add: power_add abs_less_iff)
    then show ?thesis by (simp add: pos_divide_le_eq)
  qed
  then have r_hi: "r \<le> 2 ^ 53" unfolding r_def by (rule rhe_le_int)
  have "of_int (- (2 ^ 53)) \<le> y / 2 ^ k"
  proof -
    have "- (2 ^ 53 * 2 ^ k) \<le> y" using yhi by (simp add: power_add abs_less_iff)
    then show ?thesis by (simp add: pos_le_divide_eq)
  qed
  then have r_lo: "- (2 ^ 53) \<le> r" unfolding r_def by (rule rhe_ge_int)
  have ru: "round_units y = r * 2 ^ k"
    by (simp add: round_units_def q r_def)
  have kk: "(2::int) ^ k \<le> 2 ^ 2044"
    using k by (simp only: power_increasing_iff one_less_numeral_iff semiring_norm)
  have "r * 2 ^ k \<le> 2 ^ 53 * 2 ^ k"
    using r_hi by (simp only: mult_le_cancel_right_pos zero_less_power zero_less_numeral)
  also have "\<dots> \<le> 2 ^ 53 * (2::int) ^ 2044"
    using kk by (simp only: mult_le_cancel_left_pos zero_less_power zero_less_numeral)
  also have "\<dots> < 2 ^ 2098" by (simp flip: power_add)
  finally have up: "\<not> 2 ^ 2098 \<le> r * 2 ^ k" by simp
  have "- (2 ^ 2098) < - (2 ^ 53 * (2::int) ^ 2044)" by (simp flip: power_add)
  also have "\<dots> \<le> - (2 ^ 53 * 2 ^ k)"
    using kk by (simp only: neg_le_iff_le mult_le_cancel_left_pos zero_less_power zero_less_numeral)
  also have "\<dots> \<le> r * 2 ^ k"
  proof -
    have "- (2 ^ 53) * 2 ^ k \<le> r * 2 ^ k"
      using r_lo by (simp only: mult_le_cancel_right_pos zero_less_power zero_less_numeral)
    then show ?thesis by simp
  qed
  finally have down: "\<not> r * 2 ^ k \<le> - (2 ^ 2098)" by simp
  have "rnd x = Fin (of_int (r * 2 ^ k) / 2 ^ 1074)"
    unfolding rnd_def Let_def y_def [symmetric] ru using up down by (simp only: if_False)
  also have "of_int (r * 2 ^ k) / 2 ^ 1074 = (of_int r :: rat) * 2 powi (e - 52)"
    by (simp add: p2)
  finally show ?thesis
    by (simp only: r_def arg)
qed


section \<open>Properties of the cumulative count\<close>

lemma round_thousand_dvd: "1000 dvd round_thousand n"
  by (simp add: round_thousand_def)

lemma round_thousand_multiple: "1000 dvd n \<Longrightarrow> round_thousand n = n"
proof -
  assume "1000 dvd n"
  then obtain k where n: "n = 1000 * k" by (rule dvdE)
  have "(1000 * k + 500) div 1000 = k + 500 div (1000::int)"
    by (rule div_mult_self4) simp
  then show ?thesis
    by (simp add: round_thousand_def n)
qed

lemma round_thousand_nonneg: "0 \<le> n \<Longrightarrow> 0 \<le> round_thousand n"
  by (simp add: round_thousand_def pos_imp_zdiv_nonneg_iff)

lemma round_then_sum: "1000 dvd cum \<Longrightarrow> round_thousand (cum + round_thousand n) = cum + round_thousand n"
  by (rule round_thousand_multiple) (simp add: round_thousand_dvd)

lemma int_of_float_finite: "is_finite x \<Longrightarrow> int_of_float x = Inr (trunc (value_of x))"
  by (cases x) (simp_all add: is_finite_def value_of_def)

lemma trunc_nonneg: "0 \<le> v \<Longrightarrow> 0 \<le> trunc v"
  by (simp add: trunc_def)

lemma count_cumulative_step:
  assumes "is_finite (category_total categories (category_key t name))" and "1000 dvd cum"
  shows "count_cumulative t categories (name # names) (cum, ps, cs) =
           count_cumulative t categories names
             (cum + rounded_total t categories name,
              ps(name \<mapsto> rounded_total t categories name),
              cs(name \<mapsto> cum + rounded_total t categories name))"
  using assms
  by (simp add: int_of_float_finite rounded_total_def round_then_sum Let_def)

lemma count_cumulative_returns:
  assumes "\<forall>n\<in>set names. is_finite (category_total categories (category_key t n))"
    and "1000 dvd cum"
  shows "\<exists>ps' cs'. count_cumulative t categories names (cum, ps, cs) =
           Inr (cum + sum_list (map (rounded_total t categories) names), ps', cs')"
  using assms
proof (induction names arbitrary: cum ps cs)
  case Nil
  then show ?case by simp
next
  case (Cons name names)
  let ?r = "rounded_total t categories name"
  have dvd: "1000 dvd cum + ?r"
    using Cons.prems(2) by (simp add: rounded_total_def round_thousand_dvd)
  have fin: "\<forall>n\<in>set names. is_finite (category_total categories (category_key t n))"
    using Cons.prems(1) by simp
  from Cons.IH [OF fin dvd]
  obtain ps' cs' where
    "count_cumulative t categories names (cum + ?r, ps(name \<mapsto> ?r), cs(name \<mapsto> cum + ?r))
       = Inr (cum + ?r + sum_list (map (rounded_total t categories) names), ps', cs')"
    by blast
  moreover have "is_finite (category_total categories (category_key t name))"
    using Cons.prems(1) by simp
  note count_cumulative_step [OF this Cons.prems(2), of names ps cs]
  ultimately show ?case
    by (simp only: list.map sum_list.Cons add.assoc) blast
qed

lemma count_cumulative_untouched:
  assumes "count_cumulative t categories names (cum, ps, cs) = Inr (cum', ps', cs')"
    and "n \<notin> set names"
  shows "ps' n = ps n \<and> cs' n = cs n"
  using assms
proof (induction names arbitrary: cum ps cs)
  case Nil
  then show ?case by simp
next
  case (Cons name names)
  from Cons.prems(1) obtain pop0 where
    "count_cumulative t categories names
       (round_thousand (cum + round_thousand pop0), ps(name \<mapsto> round_thousand pop0),
        cs(name \<mapsto> round_thousand (cum + round_thousand pop0))) = Inr (cum', ps', cs')"
    by (auto simp add: Let_def split: sum.splits)
  from Cons.IH [OF this] Cons.prems(2) show ?case
    by simp
qed

lemma count_cumulative_entry:
  assumes "count_cumulative t categories names (cum, ps, cs) = Inr (cum', ps', cs')"
    and "\<forall>n\<in>set names. is_finite (category_total categories (category_key t n))"
    and "1000 dvd cum"
    and "names = pre @ n # post" and "n \<notin> set post"
  shows "ps' n = Some (rounded_total t categories n) \<and>
         cs' n = Some (cum + sum_list (map (rounded_total t categories) (pre @ [n])))"
  using assms
proof (induction pre arbitrary: names cum ps cs)
  case Nil
  then have names: "names = n # post" by simp
  let ?r = "rounded_total t categories n"
  have "is_finite (category_total categories (category_key t n))"
    using Nil.prems(2) names by simp
  from count_cumulative_step [OF this Nil.prems(3), of post ps cs] Nil.prems(1) names have
    "count_cumulative t categories post (cum + ?r, ps(n \<mapsto> ?r), cs(n \<mapsto> cum + ?r))
       = Inr (cum', ps', cs')"
    by (simp only:)
  from count_cumulative_untouched [OF this Nil.prems(5)] show ?case
    by simp
next
  case (Cons x pre)
  then have names: "names = x # (pre @ n # post)" by simp
  let ?r = "rounded_total t categories x"
  have finx: "is_finite (category_total categories (category_key t x))"
    using Cons.prems(2) names by simp
  have fin: "\<forall>m\<in>set (pre @ n # post). is_finite (category_total categories (category_key t m))"
    using Cons.prems(2) names by simp
  have dvd: "1000 dvd cum + ?r"
    using Cons.prems(3) by (simp add: rounded_total_def round_thousand_dvd)
  from count_cumulative_step [OF finx Cons.prems(3), of "pre @ n # post" ps cs] Cons.prems(1) names
  have
    "count_cumulative t categories (pre @ n # post) (cum + ?r, ps(x \<mapsto> ?r), cs(x \<mapsto> cum + ?r))
       = Inr (cum', ps', cs')"
    by (simp only:)
  from Cons.IH [OF this fin dvd refl Cons.prems(5)] show ?case
    by (simp only: append_Cons list.map sum_list.Cons add.assoc)
qed

lemma count_cumulative_sorted:
  assumes "count_cumulative t categories names (cum, ps, cs) = Inr (cum', ps', cs')"
    and "\<forall>n\<in>set names. \<exists>v. category_total categories (category_key t n) = Fin v \<and> 0 \<le> v"
    and "1000 dvd cum" and "distinct names"
  shows "sorted (map (\<lambda>n. the (cs' n)) names) \<and> (\<forall>n\<in>set names. \<exists>c. cs' n = Some c \<and> cum \<le> c)"
  using assms
proof (induction names arbitrary: cum ps cs)
  case Nil
  then show ?case by simp
next
  case (Cons x names)
  let ?r = "rounded_total t categories x"
  from Cons.prems(2) obtain v where v: "category_total categories (category_key t x) = Fin v" "0 \<le> v"
    by auto
  then have finx: "is_finite (category_total categories (category_key t x))"
    by (simp add: is_finite_def)
  have r: "0 \<le> ?r"
    using v by (simp add: rounded_total_def value_of_def round_thousand_nonneg trunc_nonneg)
  have dvd: "1000 dvd cum + ?r"
    using Cons.prems(3) by (simp add: rounded_total_def round_thousand_dvd)
  have step: "count_cumulative t categories names (cum + ?r, ps(x \<mapsto> ?r), cs(x \<mapsto> cum + ?r))
       = Inr (cum', ps', cs')"
    using count_cumulative_step [OF finx Cons.prems(3), of names ps cs] Cons.prems(1)
    by (simp only:)
  have nonneg: "\<forall>n\<in>set names. \<exists>v. category_total categories (category_key t n) = Fin v \<and> 0 \<le> v"
    using Cons.prems(2) by simp
  have dist: "distinct names" and notin: "x \<notin> set names"
    using Cons.prems(4) by simp_all
  from Cons.IH [OF step nonneg dvd dist]
  have sorted: "sorted (map (\<lambda>n. the (cs' n)) names)"
    and above: "\<forall>n\<in>set names. \<exists>c. cs' n = Some c \<and> cum + ?r \<le> c"
    by simp_all
  from count_cumulative_untouched [OF step notin] have x: "cs' x = Some (cum + ?r)"
    by simp
  have "\<forall>n\<in>set names. the (cs' x) \<le> the (cs' n)"
    using above x r by fastforce
  moreover have "\<forall>n\<in>set (x # names). \<exists>c. cs' n = Some c \<and> cum \<le> c"
    using above x r by fastforce
  ultimately show ?case
    using sorted by simp
qed

section \<open>Properties of the scan of the exposure layers\<close>

lemma scan_exposure_bad_unit:
  assumes "\<forall>l\<in>set ls. is_ratio_layer l \<longrightarrow> declared_unit l \<noteq> None"
    and "\<exists>l\<in>set ls. is_ratio_layer l \<and> declared_unit l \<notin> {Some ''percent'', Some ''ratio''}"
  shows "scan_exposure ls st = Inl (RuntimeError unit_msg)"
  using assms
proof (induction ls arbitrary: st)
  case Nil
  then show ?case by simp
next
  case (Cons l ls)
  obtain population gender_ratio where st: "st = (population, gender_ratio)"
    by (cases st)
  show ?case
  proof (cases "is_ratio_layer l")
    case False
    with Cons.prems have "\<exists>l\<in>set ls. is_ratio_layer l \<and> declared_unit l \<notin> {Some ''percent'', Some ''ratio''}"
      by auto
    moreover from Cons.prems have "\<forall>l\<in>set ls. is_ratio_layer l \<longrightarrow> declared_unit l \<noteq> None"
      by simp
    ultimately have "\<And>st'. scan_exposure ls st' = Inl (RuntimeError unit_msg)"
      using Cons.IH by blast
    with False show ?thesis
      by (auto simp add: st is_ratio_layer_def split: option.splits)
  next
    case True
    with Cons.prems obtain u where u: "declared_unit l = Some u"
      by auto
    show ?thesis
    proof (cases "u = ''percent'' \<or> u = ''ratio''")
      case False
      with True u show ?thesis
        by (simp add: st is_ratio_layer_def declared_unit_def split: option.splits)
    next
      case good: True
      with u Cons.prems have "\<exists>l\<in>set ls. is_ratio_layer l \<and> declared_unit l \<notin> {Some ''percent'', Some ''ratio''}"
        by auto
      moreover from Cons.prems have "\<forall>l\<in>set ls. is_ratio_layer l \<longrightarrow> declared_unit l \<noteq> None"
        by simp
      ultimately have "\<And>st'. scan_exposure ls st' = Inl (RuntimeError unit_msg)"
        using Cons.IH by blast
      with True u good show ?thesis
        by (auto simp add: st is_ratio_layer_def declared_unit_def split: option.splits)
    qed
  qed
qed

lemma scan_exposure_good_units:
  assumes "\<forall>l\<in>set ls. is_ratio_layer l \<longrightarrow> declared_unit l \<in> {Some ''percent'', Some ''ratio''}"
  shows "\<exists>st'. scan_exposure ls st = Inr st'"
  using assms
proof (induction ls arbitrary: st)
  case Nil
  then show ?case by simp
next
  case (Cons l ls)
  obtain population gender_ratio where st: "st = (population, gender_ratio)"
    by (cases st)
  from Cons.prems have rest: "\<And>st'. \<exists>st''. scan_exposure ls st' = Inr st''"
    using Cons.IH by simp
  from Cons.prems have "is_ratio_layer l \<longrightarrow> declared_unit l \<in> {Some ''percent'', Some ''ratio''}"
    by simp
  then show ?case
    using rest by (auto simp add: st is_ratio_layer_def declared_unit_def split: option.splits)
qed

lemma flood_run_scan_error:
  "scan_exposure (exposure_layers layers) (None, None) = Inl e \<Longrightarrow> flood_run layers = Inl e"
  by (simp add: flood_run_def)

lemma cellwise_error: "cellwise f xs ys = Inl e \<Longrightarrow> e = ValueError"
  by (simp add: cellwise_def split: if_splits)

lemma gender_breakdown_error: "gender_breakdown u G P I = Inl e \<Longrightarrow> e = ValueError"
  by (auto simp add: gender_breakdown_def Let_def split: sum.splits dest: cellwise_error)

lemma no_population_msg: "''No population layer was found in: '' @ s \<noteq> unit_msg"
  by (simp add: unit_msg_def)

lemma flood_run_no_unit_error:
  assumes "scan_exposure (exposure_layers layers) (None, None) = Inr st"
  shows "flood_run layers \<noteq> Inl (RuntimeError unit_msg)"
proof
  assume run: "flood_run layers = Inl (RuntimeError unit_msg)"
  obtain population gender_ratio where st: "st = (population, gender_ratio)"
    by (cases st)
  show False
  proof (cases population)
    case None
    with run assms st show False
      using no_population_msg [of "layers_str layers"] by (simp add: flood_run_def)
  next
    case (Some pop)
    with run assms st show False
      by (auto simp add: flood_run_def Let_def split: sum.splits option.splits if_splits
               dest: cellwise_error gender_breakdown_error)
  qed
qed

lemma scan_exposure_prefix:
  assumes "units_accepted pre"
  shows "\<exists>st'. scan_exposure (pre @ rest) st = scan_exposure rest st'"
  using assms
proof (induction pre arbitrary: st)
  case Nil
  show ?case by (cases st) auto
next
  case (Cons l pre)
  obtain population gender_ratio where st: "st = (population, gender_ratio)"
    by (cases st)
  from Cons.prems have "units_accepted pre"
    by (simp add: units_accepted_def)
  then have rest: "\<And>st1. \<exists>st'. scan_exposure (pre @ rest) st1 = scan_exposure rest st'"
    by (rule Cons.IH)
  from Cons.prems have "is_ratio_layer l \<longrightarrow> declared_unit l \<in> {Some ''percent'', Some ''ratio''}"
    by (simp add: units_accepted_def)
  then show ?case
    using rest by (auto simp add: st is_ratio_layer_def declared_unit_def split: option.splits)
qed

lemma scan_exposure_wrong_unit:
  assumes "is_ratio_layer l" and "declared_unit l \<notin> {None, Some ''percent'', Some ''ratio''}"
  shows "scan_exposure (l # post) st = Inl (RuntimeError unit_msg)"
proof -
  obtain population gender_ratio where st: "st = (population, gender_ratio)"
    by (cases st)
  from assms show ?thesis
    by (auto simp add: st is_ratio_layer_def declared_unit_def split: option.splits)
qed

lemma scan_exposure_no_unit:
  assumes "is_ratio_layer l" and "declared_unit l = None"
  shows "scan_exposure (l # post) st = Inl (KeyError ''unit'')"
proof -
  obtain population gender_ratio where st: "st = (population, gender_ratio)"
    by (cases st)
  from assms show ?thesis
    by (auto simp add: st is_ratio_layer_def declared_unit_def split: option.splits)
qed

section \<open>Evaluating binary64 operations\<close>



lemma rnd_28: "rnd (28 / 10) = Fin (3152519739159347 / 1125899906842624)"
  using rnd_normal [of 1 "28 / 10"]
  by (simp add: round_half_even_def Let_def)

lemma rnd_175: "rnd (175 / 10) = Fin (35 / 2)"
  using rnd_half_int [of 35] by simp

lemma float_of_int_small: "\<bar>n\<bar> \<le> 2 ^ 53 \<Longrightarrow> float_of_int n = Inr (Fin (of_int n))"
  by (simp add: float_of_int_def rnd_of_int)

lemma int_times_float_normal:
  assumes "\<bar>n\<bar> \<le> 2 ^ 53" and "rnd c = Fin d"
    and "2 powi e \<le> \<bar>of_int n * d\<bar>" and "\<bar>of_int n * d\<bar> < 2 powi (e + 1)"
    and "- 1022 \<le> e" and "e \<le> 1022"
  shows "int_times_float n c =
           Inr (trunc (of_int (round_half_even (of_int n * d / 2 powi (e - 52))) * 2 powi (e - 52)))"
  using assms(2) rnd_normal [OF assms(3-6)]
  by (simp add: int_times_float_def float_of_int_small [OF assms(1)])

lemma rice_1000: "int_times_float 1000 (28 / 10) = Inr 2800"
  using int_times_float_normal [OF _ rnd_28, of 1000 11]
  by (simp add: round_half_even_def Let_def trunc_def)

lemma rice_5000: "int_times_float 5000 (28 / 10) = Inr 14000"
  using int_times_float_normal [OF _ rnd_28, of 5000 13]
  by (simp add: round_half_even_def Let_def trunc_def)

lemma rice_11000: "int_times_float 11000 (28 / 10) = Inr 30799"
  using int_times_float_normal [OF _ rnd_28, of 11000 14]
  by (simp add: round_half_even_def Let_def trunc_def)

lemma drinking_water_exact:
  assumes "\<bar>n\<bar> < 2 ^ 47"
  shows "int_times_float n (175 / 10) = Inr (trunc (of_int n * (175 / 10)))"
proof -
  have n: "\<bar>n\<bar> \<le> 2 ^ 53" using assms by simp
  have "\<bar>35 * n\<bar> < 2 ^ 53" using assms by simp
  from rnd_half_int [OF this] have "rnd (of_int n * (35 / 2)) = Fin (of_int n * (35 / 2))"
    by (simp add: mult.commute)
  then have "int_of_float (fmul (Fin (of_int n)) (Fin (35 / 2))) = Inr (trunc (of_int n * (35 / 2)))"
    by (simp only: fmul.simps int_of_float.simps)
  moreover have "(175 / 10 :: rat) = 35 / 2" by simp
  ultimately show ?thesis
    unfolding int_times_float_def float_of_int_small [OF n] rnd_175
    by (simp only: sum.case)
qed


lemma quantum_bound:
  assumes "\<bar>y\<bar> < 2 ^ (53 + k)"
  shows "quantum y \<le> 2 ^ k"
proof -
  have "bit_length (nat \<lfloor>\<bar>y\<bar>\<rfloor>) \<le> 53 + k"
    using assms by (intro bit_length_le nat_floor_less_pow)
  then have "bit_length (nat \<lfloor>\<bar>y\<bar>\<rfloor>) - 53 \<le> k" by simp
  then show ?thesis
    unfolding quantum_def by (intro power_increasing) simp_all
qed

lemma rnd_error:
  assumes "\<bar>x\<bar> * 2 ^ 1074 < 2 ^ (53 + k)" and "k \<le> 2044"
  shows "\<exists>r. rnd x = Fin r \<and> \<bar>r - x\<bar> \<le> 2 ^ k / 2 ^ 1075"
proof -
  define y where "y = x * 2 ^ 1074"
  define m where "m = round_units y"
  have ay: "\<bar>y\<bar> < 2 ^ (53 + k)"
    using assms(1) by (simp add: y_def abs_mult)
  have "(of_nat (quantum y) :: rat) \<le> of_nat (2 ^ k)"
    using quantum_bound [OF ay] by (simp only: of_nat_le_iff)
  then have q: "(of_nat (quantum y) :: rat) \<le> 2 ^ k" by simp
  have err: "\<bar>of_int m - y\<bar> \<le> 2 ^ k / 2"
    using round_units_error [of y] q unfolding m_def by linarith
  have kk: "(2::rat) ^ k \<le> 2 ^ 2044"
    using assms(2) by (simp only: power_increasing_iff one_less_numeral_iff semiring_norm)
  have "\<bar>of_int m :: rat\<bar> \<le> \<bar>y\<bar> + 2 ^ k / 2"
    using err by linarith
  also have "\<dots> < 2 ^ 53 * 2 ^ k + 2 ^ k"
    using ay by (simp add: power_add)
  also have "\<dots> = (2 ^ 53 + 1) * 2 ^ k" by (simp add: algebra_simps)
  also have "\<dots> \<le> (2 ^ 53 + 1) * 2 ^ 2044"
    using kk by (intro mult_left_mono) simp_all
  also have "\<dots> < 2 ^ 2098" by simp
  finally have "\<bar>of_int m :: rat\<bar> < of_int (2 ^ 2098)" by simp
  then have "\<bar>m\<bar> < 2 ^ 2098"
    by (simp only: of_int_abs [symmetric] of_int_less_iff)
  then have fin: "rnd x = Fin (of_int m / 2 ^ 1074)"
    unfolding rnd_def Let_def y_def [symmetric] m_def [symmetric] by (simp add: abs_less_iff)
  have "\<bar>of_int m / 2 ^ 1074 - x\<bar> = \<bar>of_int m - y\<bar> / 2 ^ 1074"
  proof -
    have "of_int m / 2 ^ 1074 - x = (of_int m - y) / 2 ^ 1074"
      by (simp add: y_def diff_divide_distrib)
    then show ?thesis by (simp only: abs_divide) simp
  qed
  also have "\<dots> \<le> (2 ^ k / 2) / 2 ^ 1074"
    using err by (intro divide_right_mono) simp_all
  also have "\<dots> = 2 ^ k / 2 ^ 1075" by simp
  finally show ?thesis using fin by blast
qed

lemma rnd_nonneg:
  assumes "0 \<le> x" and "rnd x = Fin r"
  shows "0 \<le> r"
  using rnd_mono [OF assms(1)] assms(2) by simp


lemma rice_bound:
  assumes "0 \<le> n" and "n < 2 ^ 47"
  shows "\<exists>k. int_times_float n (28 / 10) = Inr k
           \<and> trunc (of_int n * (28 / 10)) - 1 \<le> k \<and> k \<le> trunc (of_int n * (28 / 10))"
proof -
  define d :: rat where "d = 3152519739159347 / 1125899906842624"
  define z :: rat where "z = of_int n * (28 / 10)"
  define x :: rat where "x = of_int n * d"
  define T where "T = trunc z"
  define N :: rat where "N = of_int n"
  have n0: "0 \<le> N" using assms(1) by (simp add: N_def)
  have "N < of_int (2 ^ 47)" unfolding N_def using assms(2) by (simp only: of_int_less_iff)
  then have n1: "N < 2 ^ 47" by simp
  have nabs: "\<bar>n\<bar> \<le> 2 ^ 53" using assms by simp
  have dgap: "28 / 10 - d = 1 / 5629499534213120" by (simp add: d_def)
  have "z - x = N * (28 / 10 - d)"
    by (simp add: z_def x_def N_def right_diff_distrib)
  then have gap: "z - x = N / 5629499534213120" by (simp only: dgap times_divide_eq_right mult_1_right)
  have x0: "0 \<le> x" using n0 by (simp add: x_def d_def N_def)
  have xz: "x \<le> z" using n0 gap by simp
  have "N / 5629499534213120 < 2 ^ 47 / 5629499534213120"
    using n1 by (simp only: divide_strict_right_mono zero_less_numeral)
  also have "\<dots> = 1 / 40" by simp
  finally have zx: "z - x < 1 / 40" by (simp only: gap)
  have z0: "0 \<le> z" using n0 by (simp add: z_def N_def)
  have Tfl: "T = \<lfloor>z\<rfloor>" using z0 by (simp add: T_def trunc_def)
  have "z = of_int (14 * n) / of_int 5" by (simp add: z_def)
  then have "\<lfloor>z\<rfloor> = (14 * n) div 5" by (simp only: floor_divide_of_int_eq)
  then have T5: "T = (14 * n) div 5" by (simp only: Tfl)
  have "14 * n = 5 * ((14 * n) div 5) + (14 * n) mod 5" by simp
  moreover have "(14 * n) mod 5 \<le> 4" by simp
  ultimately have "14 * n \<le> 5 * T + 4" unfolding T5 by linarith
  then have "(of_int (14 * n) :: rat) \<le> of_int (5 * T + 4)" by (simp only: of_int_le_iff)
  then have "14 * N \<le> 5 * of_int T + 4" by (simp add: N_def)
  moreover have "z = 14 * N / 5" by (simp add: z_def N_def)
  ultimately have zT: "z \<le> of_int T + 4 / 5" by simp
  have Tz: "of_int T \<le> z" unfolding Tfl by simp
  have "z < 2 ^ 49"
  proof -
    have "z = N * (28 / 10)" by (simp add: z_def N_def)
    also have "\<dots> < 2 ^ 47 * (28 / 10)" using n1 by (intro mult_strict_right_mono) simp_all
    also have "\<dots> < 2 ^ 49" by simp
    finally show ?thesis .
  qed
  then have "\<bar>x\<bar> < 2 ^ 49" using x0 xz by simp
  then have "\<bar>x\<bar> * 2 ^ 1074 < 2 ^ 49 * 2 ^ 1074"
    by (simp only: mult_less_cancel_right_pos zero_less_power zero_less_numeral)
  also have "(2::rat) ^ 49 * 2 ^ 1074 = 2 ^ (53 + 1070)" by (simp flip: power_add)
  finally have "\<bar>x\<bar> * 2 ^ 1074 < 2 ^ (53 + 1070)" .
  from rnd_error [OF this] obtain r where r: "rnd x = Fin r" and err: "\<bar>r - x\<bar> \<le> 2 ^ 1070 / 2 ^ 1075"
    by auto
  have "(2::rat) ^ 1075 = 2 ^ 1070 * 2 ^ 5" by (simp flip: power_add)
  then have "(2::rat) ^ 1070 / 2 ^ 1075 = 1 / 32" by simp
  with err have err': "\<bar>r - x\<bar> \<le> 1 / 32" by (simp only:)
  have r0: "0 \<le> r" using x0 r by (rule rnd_nonneg)
  have "r < of_int T + 1" using err' xz zT by linarith
  then have "r < of_int (T + 1)" by simp
  then have "\<lfloor>r\<rfloor> < T + 1" by (simp only: floor_less_iff)
  then have up: "\<lfloor>r\<rfloor> \<le> T" by linarith
  have "of_int T - 1 \<le> r" using err' zx Tz by linarith
  then have "of_int (T - 1) \<le> r" by simp
  then have lo: "T - 1 \<le> \<lfloor>r\<rfloor>" by (simp only: le_floor_iff)
  have "fmul (Fin (of_int n)) (Fin d) = Fin r" using r by (simp add: x_def)
  then have "int_times_float n (28 / 10) = Inr (trunc r)"
    unfolding int_times_float_def float_of_int_small [OF nabs] rnd_28 d_def
    by (simp only: sum.case int_of_float.simps)
  moreover have "trunc r = \<lfloor>r\<rfloor>" using r0 by (simp add: trunc_def)
  ultimately show ?thesis
    using up lo unfolding T_def z_def by auto
qed


lemma trunc_of_int [simp]: "trunc (of_int k) = k"
  by (simp add: trunc_def)

lemma trunc_nonneg_floor: "0 \<le> x \<Longrightarrow> trunc x = \<lfloor>x\<rfloor>"
  by (simp add: trunc_def)

lemma estimated_needs_1000:
  "estimated_needs 1000 =
     Inr \<lparr>rice = 2800, drinking_water = 17500, water = 67000, family_kits = 200, toilets = 50\<rparr>"
proof -
  have "int_times_float 1000 (175 / 10) = Inr (trunc (of_int 1000 * (175 / 10)))"
    by (rule drinking_water_exact) simp
  moreover have "trunc (of_int 1000 * (175 / 10)) = 17500"
    using trunc_of_int [of 17500] by simp
  ultimately have d: "int_times_float 1000 (175 / 10) = Inr 17500"
    by (simp only:)
  show ?thesis
    unfolding estimated_needs_def rice_1000 d by simp
qed

lemma estimated_needs_11000:
  "estimated_needs 11000 =
     Inr \<lparr>rice = 30799, drinking_water = 192500, water = 737000, family_kits = 2200,
          toilets = 550\<rparr>"
proof -
  have "int_times_float 11000 (175 / 10) = Inr (trunc (of_int 11000 * (175 / 10)))"
    by (rule drinking_water_exact) simp
  moreover have "trunc (of_int 11000 * (175 / 10)) = 192500"
    using trunc_of_int [of 192500] by simp
  ultimately have d: "int_times_float 11000 (175 / 10) = Inr 192500"
    by (simp only:)
  show ?thesis
    unfolding estimated_needs_def rice_11000 d by simp
qed

lemma estimated_needs_returns:
  assumes "estimated_needs ev = Inr n"
  shows "water n = ev * 67 \<and> family_kits n = \<lfloor>of_int ev / 5 :: rat\<rfloor>
           \<and> toilets n = \<lfloor>of_int ev / 20 :: rat\<rfloor>"
proof -
  have "\<lfloor>of_int ev / of_int 5 :: rat\<rfloor> = ev div 5"
    by (rule floor_divide_of_int_eq)
  moreover have "\<lfloor>of_int ev / of_int 20 :: rat\<rfloor> = ev div 20"
    by (rule floor_divide_of_int_eq)
  ultimately show ?thesis
    using assms by (auto simp add: estimated_needs_def split: sum.splits)
qed

section \<open>The example run\<close>



lemma rnd_of_int_numeral:
  "(numeral n :: int) \<le> 2 ^ 53 \<Longrightarrow> rnd (numeral n) = Fin (numeral n)"
  using rnd_of_int [of "numeral n"] by simp

lemma fadd_zero_numeral:
  "(numeral n :: int) \<le> 2 ^ 53 \<Longrightarrow> fadd (Fin 0) (Fin (numeral n)) = Fin (numeral n)"
  by (simp add: rnd_of_int_numeral)

lemma estimated_needs_5000:
  "estimated_needs 5000 =
     Inr \<lparr>rice = 14000, drinking_water = 87500, water = 335000, family_kits = 1000,
          toilets = 250\<rparr>"
proof -
  have "int_times_float 5000 (175 / 10) = Inr (trunc (of_int 5000 * (175 / 10)))"
    by (rule drinking_water_exact) simp
  moreover have "trunc (of_int 5000 * (175 / 10)) = 87500"
    using trunc_of_int [of 87500] by simp
  ultimately have d: "int_times_float 5000 (175 / 10) = Inr 87500"
    by (simp only:)
  show ?thesis
    unfolding estimated_needs_def rice_5000 d by simp
qed

lemma example_count:
  "count_population
     [\<lparr>sample_population = Fin 1000, polygon_id = 0\<rparr>,
      \<lparr>sample_population = Fin 4000, polygon_id = 1\<rparr>]
     (initial_count [Number 3000, Number 5000, Number 10000])
   = Inr ([\<lparr>category_value = Number 3000, population = Fin 1000\<rparr>,
           \<lparr>category_value = Number 5000, population = Fin 4000\<rparr>,
           \<lparr>category_value = Number 10000, population = Fin 0\<rparr>],
          [Number 3000 \<mapsto> Fin 1000, Number 5000 \<mapsto> Fin 4000, Number 10000 \<mapsto> Fin 0])"
  by (simp add: initial_count_def initial_attributes_def rnd_of_int_numeral Let_def fun_upd_twist)


lemma example_cumulative:
  "count_cumulative ''Radius''
     [Number 3000 \<mapsto> Fin 1000, Number 5000 \<mapsto> Fin 4000, Number 10000 \<mapsto> Fin 0]
     [Number 3, Number 5, Number 10] (0, Map.empty, Map.empty)
   = Inr (5000, [Number 3 \<mapsto> 1000, Number 5 \<mapsto> 4000, Number 10 \<mapsto> 0],
          [Number 3 \<mapsto> 1000, Number 5 \<mapsto> 5000, Number 10 \<mapsto> 5000])"
  by (simp add: category_total_def category_key_def round_thousand_def trunc_def Let_def)

lemma example_style:
  "create_style example_ext
     [\<lparr>category_value = Number 3000, population = Fin 1000\<rparr>,
      \<lparr>category_value = Number 5000, population = Fin 4000\<rparr>,
      \<lparr>category_value = Number 10000, population = Fin 0\<rparr>]
   = Inr (map (\<lambda>i. \<lparr>label = ''0 - 4000'', class_min = (if i = 0 then Fin 0 else Fin 4000),
                        transparency = (if i = 0 then 100 else 30), colour = colours ! i,
                        class_max = Fin 4000\<rparr>) [0 ..< 8])"
  by (simp add: create_style_def example_ext_def colours_def style_class_at_def upt_rec eval_nat_numeral)

lemma example_evacuation:
  "evacuation example_ext example_rings \<lparr>exposure_name = ''people'', exposure_sum = Fin 20000\<rparr>
         ''Radius'' [Number 3, Number 5, Number 10]
   = Inr \<lparr>new_attributes =
             [\<lparr>category_value = Number 3000, population = Fin 1000\<rparr>,
              \<lparr>category_value = Number 5000, population = Fin 4000\<rparr>,
              \<lparr>category_value = Number 10000, population = Fin 0\<rparr>],
           total = 20000,
           pops = [Number 3 \<mapsto> 1000, Number 5 \<mapsto> 4000, Number 10 \<mapsto> 0],
           cums = [Number 3 \<mapsto> 1000, Number 5 \<mapsto> 5000, Number 10 \<mapsto> 5000],
           evacuated = 5000,
           minimum_needs = \<lparr>rice = 14000, drinking_water = 87500, water = 335000,
                              family_kits = 1000, toilets = 250\<rparr>,
           style_classes =
             map (\<lambda>i. \<lparr>label = ''0 - 4000'', class_min = (if i = 0 then Fin 0 else Fin 4000),
                        transparency = (if i = 0 then 100 else 30), colour = colours ! i,
                        class_max = Fin 4000\<rparr>) [0 ..< 8]\<rparr>"
proof -
  have a: "assign_hazard_values_to_exposure_data example_ext example_rings
             \<lparr>exposure_name = ''people'', exposure_sum = Fin 20000\<rparr>
           = [\<lparr>sample_population = Fin 1000, polygon_id = 0\<rparr>,
              \<lparr>sample_population = Fin 4000, polygon_id = 1\<rparr>]"
    by (simp add: example_ext_def)
  have f: "features example_rings = [Number 3000, Number 5000, Number 10000]"
    by (simp add: example_rings_def)
  have t: "round_thousand (trunc 20000) = 20000"
    using trunc_of_int [of 20000] by (simp add: round_thousand_def)
  have s: "exposure_sum \<lparr>exposure_name = ''people'', exposure_sum = Fin 20000\<rparr> = Fin 20000"
    by simp
  show ?thesis
    unfolding evacuation_def a f s example_count example_cumulative estimated_needs_5000
      example_style int_of_float.simps sum.case prod.case t
    by (rule refl)
qed


lemma evacuation_numbers:
  assumes "evacuation ext H E t names = Inr r"
  shows "\<exists>attrs cats.
           count_population (assign_hazard_values_to_exposure_data ext H E)
             (initial_count (features H)) = Inr (attrs, cats)
         \<and> count_cumulative t cats names (0, Map.empty, Map.empty)
             = Inr (evacuated r, pops r, cums r)
         \<and> estimated_needs (evacuated r) = Inr (minimum_needs r)"
  using assms
  by (auto simp add: evacuation_def split: sum.splits prod.splits)

lemma example_rounded:
  "rounded_total ''Radius'' example_totals (Number 3) = 1000"
  "rounded_total ''Radius'' example_totals (Number 5) = 4000"
  "rounded_total ''Radius'' example_totals (Number 10) = 0"
  using trunc_of_int [of 1000] trunc_of_int [of 4000] trunc_of_int [of 0]
  by (simp_all add: rounded_total_def example_totals_def category_total_def category_key_def
        value_of_def round_thousand_def)

lemma example_finite:
  "\<forall>n\<in>set [Number 3, Number 5, Number 10].
     is_finite (category_total example_totals (category_key ''Radius'' n))"
  by (simp add: example_totals_def category_total_def category_key_def is_finite_def)

section \<open>Properties of the population count and of the style loop\<close>



lemma initial_categories_apply:
  "initial_categories attrs m k =
     (if k \<in> category_value ` set attrs then Some (Fin 0) else m k)"
  by (induction attrs arbitrary: m) auto

lemma initial_attributes_nth:
  "j < length zones \<Longrightarrow>
     initial_attributes zones ! j = \<lparr>category_value = zones ! j, population = Fin 0\<rparr>"
  by (simp add: initial_attributes_def)

lemma length_initial_attributes [simp]: "length (initial_attributes zones) = length zones"
  by (simp add: initial_attributes_def)

lemma count_cumulative_cong:
  assumes "\<forall>n\<in>set names. category_total c1 (category_key t n) = category_total c2 (category_key t n)"
  shows "count_cumulative t c1 names st = count_cumulative t c2 names st"
  using assms
proof (induction names arbitrary: st)
  case Nil
  then show ?case by simp
next
  case (Cons name names)
  obtain cum ps cs where st: "st = (cum, ps, cs)" by (cases st)
  have head: "category_total c1 (category_key t name) = category_total c2 (category_key t name)"
    using Cons.prems by simp
  have "\<forall>n\<in>set names. category_total c1 (category_key t n) = category_total c2 (category_key t n)"
    using Cons.prems by simp
  then have "\<And>st'. count_cumulative t c1 names st' = count_cumulative t c2 names st'"
    by (rule Cons.IH)
  then show ?case
    by (simp add: st head Let_def split: sum.splits)
qed

lemma count_population_step:
  assumes "polygon_id s < length attrs"
    and "cs (category_value (attrs ! polygon_id s)) = Some c"
  shows "count_population (s # ss) (attrs, cs) =
           count_population ss
             (attrs[polygon_id s := (attrs ! polygon_id s)
                      \<lparr>population := fadd (population (attrs ! polygon_id s)) (sample_population s)\<rparr>],
              cs(category_value (attrs ! polygon_id s) \<mapsto> fadd c (sample_population s)))"
  using assms by (simp add: Let_def)

lemma count_population_result:
  assumes "\<forall>s\<in>set ss. polygon_id s < length attrs"
    and "\<forall>a\<in>set attrs. cs (category_value a) \<noteq> None"
  shows "\<exists>attrs' cs'. count_population ss (attrs, cs) = Inr (attrs', cs')
       \<and> length attrs' = length attrs
       \<and> (\<forall>j<length attrs.
             category_value (attrs' ! j) = category_value (attrs ! j)
           \<and> population (attrs' ! j) =
               foldl fadd (population (attrs ! j))
                 (map sample_population (filter (\<lambda>s. polygon_id s = j) ss)))
       \<and> (\<forall>k. cs' k =
             map_option
               (\<lambda>v. foldl fadd v
                  (map sample_population
                     (filter (\<lambda>s. category_value (attrs ! polygon_id s) = k) ss)))
               (cs k))"
  using assms
proof (induction ss arbitrary: attrs cs)
  case Nil
  have "\<And>k. cs k = map_option (\<lambda>v. v) (cs k)" by (simp add: option.map_ident)
  then show ?case by simp
next
  case (Cons s ss)
  define i where "i = polygon_id s"
  define pop where "pop = sample_population s"
  define cat where "cat = category_value (attrs ! i)"
  have i: "i < length attrs" using Cons.prems(1) by (simp add: i_def)
  then have "attrs ! i \<in> set attrs" by simp
  with Cons.prems(2) obtain c where c: "cs cat = Some c"
    unfolding cat_def by blast
  define attrs1 where
    "attrs1 = attrs[i := (attrs ! i)\<lparr>population := fadd (population (attrs ! i)) pop\<rparr>]"
  define cs1 where "cs1 = cs(cat \<mapsto> fadd c pop)"
  have step: "count_population (s # ss) (attrs, cs) = count_population ss (attrs1, cs1)"
    using count_population_step [of s attrs cs c ss] i c
    by (simp only: i_def pop_def cat_def attrs1_def cs1_def)
  have len1: "length attrs1 = length attrs" by (simp add: attrs1_def)
  have cat1: "category_value (attrs1 ! j) = category_value (attrs ! j)" if "j < length attrs" for j
    using that by (cases "j = i") (simp_all add: attrs1_def)
  have ids1: "\<forall>s\<in>set ss. polygon_id s < length attrs1"
    using Cons.prems(1) by (simp add: len1)
  have dom1: "\<forall>a\<in>set attrs1. cs1 (category_value a) \<noteq> None"
  proof
    fix a assume "a \<in> set attrs1"
    then obtain j where j: "j < length attrs1" "a = attrs1 ! j"
      by (auto simp add: in_set_conv_nth)
    then have "category_value a = category_value (attrs ! j)"
      using cat1 len1 by simp
    moreover have "attrs ! j \<in> set attrs" using j len1 by simp
    ultimately have "cs (category_value a) \<noteq> None"
      using Cons.prems(2) by simp
    then show "cs1 (category_value a) \<noteq> None"
      by (simp add: cs1_def)
  qed
  from Cons.IH [OF ids1 dom1] obtain attrs' cs' where
    run: "count_population ss (attrs1, cs1) = Inr (attrs', cs')"
    and len: "length attrs' = length attrs1"
    and polys: "\<forall>j<length attrs1.
             category_value (attrs' ! j) = category_value (attrs1 ! j)
           \<and> population (attrs' ! j) =
               foldl fadd (population (attrs1 ! j))
                 (map sample_population (filter (\<lambda>s. polygon_id s = j) ss))"
    and cats: "\<forall>k. cs' k =
             map_option
               (\<lambda>v. foldl fadd v
                  (map sample_population
                     (filter (\<lambda>s. category_value (attrs1 ! polygon_id s) = k) ss)))
               (cs1 k)"
    by blast
  have filt: "\<And>k. filter (\<lambda>s. category_value (attrs1 ! polygon_id s) = k) ss
                 = filter (\<lambda>s. category_value (attrs ! polygon_id s) = k) ss"
    using Cons.prems(1) cat1 by (intro filter_cong) simp_all
  have P: "\<forall>j<length attrs.
             category_value (attrs' ! j) = category_value (attrs ! j)
           \<and> population (attrs' ! j) =
               foldl fadd (population (attrs ! j))
                 (map sample_population (filter (\<lambda>s. polygon_id s = j) (s # ss)))"
  proof (intro allI impI)
    fix j assume j: "j < length attrs"
    then have j1: "j < length attrs1" by (simp add: len1)
    from polys j1 have a: "category_value (attrs' ! j) = category_value (attrs1 ! j)"
      and b: "population (attrs' ! j) =
               foldl fadd (population (attrs1 ! j))
                 (map sample_population (filter (\<lambda>s. polygon_id s = j) ss))"
      by simp_all
    have "population (attrs1 ! j) = (if j = i then fadd (population (attrs ! j)) pop
                                     else population (attrs ! j))"
      using j i by (simp add: attrs1_def nth_list_update)
    then have "foldl fadd (population (attrs1 ! j))
                 (map sample_population (filter (\<lambda>s. polygon_id s = j) ss))
             = foldl fadd (population (attrs ! j))
                 (map sample_population (filter (\<lambda>s. polygon_id s = j) (s # ss)))"
      by (auto simp add: i_def pop_def)
    with a b cat1 [OF j]
    show "category_value (attrs' ! j) = category_value (attrs ! j)
           \<and> population (attrs' ! j) =
               foldl fadd (population (attrs ! j))
                 (map sample_population (filter (\<lambda>s. polygon_id s = j) (s # ss)))"
      by simp
  qed
  have C: "\<forall>k. cs' k =
             map_option
               (\<lambda>v. foldl fadd v
                  (map sample_population
                     (filter (\<lambda>s. category_value (attrs ! polygon_id s) = k) (s # ss))))
               (cs k)"
  proof
    fix k
    show "cs' k =
             map_option
               (\<lambda>v. foldl fadd v
                  (map sample_population
                     (filter (\<lambda>s. category_value (attrs ! polygon_id s) = k) (s # ss))))
               (cs k)"
    proof (cases "k = cat")
      case True
      then show ?thesis
        using cats [rule_format, of k] c
        by (simp add: filt cs1_def cat_def i_def pop_def)
    next
      case False
      then show ?thesis
        using cats [rule_format, of k]
        by (auto simp add: filt cs1_def cat_def i_def)
    qed
  qed
  show ?case
    unfolding step
  proof (intro exI conjI)
    show "count_population ss (attrs1, cs1) = Inr (attrs', cs')" by (rule run)
    show "length attrs' = length attrs" using len len1 by simp
  qed (rule P, rule C)
qed


lemma initial_count_result:
  assumes "\<forall>s\<in>set ss. polygon_id s < length zones"
  shows "\<exists>attrs cats. count_population ss (initial_count zones) = Inr (attrs, cats)
       \<and> length attrs = length zones
       \<and> (\<forall>j<length zones.
             category_value (attrs ! j) = zones ! j
           \<and> population (attrs ! j) =
               foldl fadd (Fin 0) (map sample_population (filter (\<lambda>s. polygon_id s = j) ss)))
       \<and> (\<forall>k. category_total cats k =
             (if k \<in> set zones
              then foldl fadd (Fin 0)
                     (map sample_population (filter (\<lambda>s. zones ! polygon_id s = k) ss))
              else Fin 0))"
proof -
  let ?attrs0 = "initial_attributes zones"
  let ?cats0 = "initial_categories ?attrs0 Map.empty"
  have ids: "\<forall>s\<in>set ss. polygon_id s < length ?attrs0"
    using assms by simp
  have image: "category_value ` set ?attrs0 = set zones"
    by (force simp add: initial_attributes_def)
  have dom: "\<forall>a\<in>set ?attrs0. ?cats0 (category_value a) \<noteq> None"
    by (simp add: initial_categories_apply)
  from count_population_result [OF ids dom] obtain attrs cats where
    run: "count_population ss (?attrs0, ?cats0) = Inr (attrs, cats)"
    and len: "length attrs = length ?attrs0"
    and polys: "\<forall>j<length ?attrs0.
             category_value (attrs ! j) = category_value (?attrs0 ! j)
           \<and> population (attrs ! j) =
               foldl fadd (population (?attrs0 ! j))
                 (map sample_population (filter (\<lambda>s. polygon_id s = j) ss))"
    and cats: "\<forall>k. cats k =
             map_option
               (\<lambda>v. foldl fadd v
                  (map sample_population
                     (filter (\<lambda>s. category_value (?attrs0 ! polygon_id s) = k) ss)))
               (?cats0 k)"
    by blast
  have filt: "\<And>k. filter (\<lambda>s. category_value (?attrs0 ! polygon_id s) = k) ss
                 = filter (\<lambda>s. zones ! polygon_id s = k) ss"
    using assms by (intro filter_cong) (simp_all add: initial_attributes_nth)
  have P: "\<forall>j<length zones.
             category_value (attrs ! j) = zones ! j
           \<and> population (attrs ! j) =
               foldl fadd (Fin 0) (map sample_population (filter (\<lambda>s. polygon_id s = j) ss))"
    using polys by (simp add: initial_attributes_nth)
  have C: "\<forall>k. category_total cats k =
             (if k \<in> set zones
              then foldl fadd (Fin 0)
                     (map sample_population (filter (\<lambda>s. zones ! polygon_id s = k) ss))
              else Fin 0)"
    using cats by (simp add: category_total_def filt initial_categories_apply image)
  show ?thesis
    unfolding initial_count_def
  proof (intro exI conjI)
    show "count_population ss (?attrs0, ?cats0) = Inr (attrs, cats)" by (rule run)
    show "length attrs = length zones" using len by simp
  qed (rule P, rule C)
qed


text \<open>
  The needs the function computes in the range \<open>0 \<le> evacuated < 2 ^ 47\<close>: all but the
  rice are the exact values truncated, and the rice is the truncated exact product or
  one less.
\<close>

lemma estimated_needs_computed:
  "(0 \<le> ev \<and> ev < 2 ^ 47 \<longrightarrow>
      (\<exists>n. estimated_needs ev = Inr n
         \<and> trunc (of_int ev * (28 / 10)) - 1 \<le> rice n
         \<and> rice n \<le> trunc (of_int ev * (28 / 10))
         \<and> drinking_water n = trunc (of_int ev * (175 / 10))
         \<and> water n = trunc (of_int ev * 67)
         \<and> family_kits n = trunc (of_int ev / 5)
         \<and> toilets n = trunc (of_int ev / 20)))
   \<and> (\<forall>n. estimated_needs ev = Inr n \<longrightarrow>
         water n = ev * 67
       \<and> family_kits n = \<lfloor>of_int ev / 5 :: rat\<rfloor>
       \<and> toilets n = \<lfloor>of_int ev / 20 :: rat\<rfloor>)
   \<and> estimated_needs 1000 =
       Inr \<lparr>rice = 2800, drinking_water = 17500, water = 67000, family_kits = 200,
            toilets = 50\<rparr>"
proof (intro conjI impI allI)
  assume range: "0 \<le> ev \<and> ev < 2 ^ 47"
  then have e0: "0 \<le> ev" and e1: "ev < 2 ^ 47" by simp_all
  from rice_bound [OF e0 e1] obtain r where
    r: "int_times_float ev (28 / 10) = Inr r"
    and r_lo: "trunc (of_int ev * (28 / 10)) - 1 \<le> r"
    and r_hi: "r \<le> trunc (of_int ev * (28 / 10))"
    by blast
  have "\<bar>ev\<bar> < 2 ^ 47" using e0 e1 by simp
  then have d: "int_times_float ev (175 / 10) = Inr (trunc (of_int ev * (175 / 10)))"
    by (rule drinking_water_exact)
  define n where "n = \<lparr>rice = r, drinking_water = trunc (of_int ev * (175 / 10)),
    water = ev * 67, family_kits = ev div 5, toilets = ev div 20\<rparr>"
  have run: "estimated_needs ev = Inr n"
    unfolding estimated_needs_def r d n_def by simp
  have w: "trunc (of_int ev * 67) = ev * 67"
    using trunc_of_int [of "ev * 67"] by simp
  have "(0::rat) \<le> of_int ev / 5" using e0 by simp
  then have "trunc (of_int ev / 5) = \<lfloor>of_int ev / of_int 5 :: rat\<rfloor>"
    by (simp add: trunc_nonneg_floor)
  then have k: "trunc (of_int ev / 5) = ev div 5"
    by (simp only: floor_divide_of_int_eq)
  have "(0::rat) \<le> of_int ev / 20" using e0 by simp
  then have "trunc (of_int ev / 20) = \<lfloor>of_int ev / of_int 20 :: rat\<rfloor>"
    by (simp add: trunc_nonneg_floor)
  then have t: "trunc (of_int ev / 20) = ev div 20"
    by (simp only: floor_divide_of_int_eq)
  show "\<exists>n. estimated_needs ev = Inr n
         \<and> trunc (of_int ev * (28 / 10)) - 1 \<le> rice n
         \<and> rice n \<le> trunc (of_int ev * (28 / 10))
         \<and> drinking_water n = trunc (of_int ev * (175 / 10))
         \<and> water n = trunc (of_int ev * 67)
         \<and> family_kits n = trunc (of_int ev / 5)
         \<and> toilets n = trunc (of_int ev / 20)"
    using run r_lo r_hi w k t by (intro exI [of _ n]) (simp add: n_def)
next
  fix n
  assume "estimated_needs ev = Inr n"
  from estimated_needs_returns [OF this]
  show "water n = ev * 67" 
    and "family_kits n = \<lfloor>of_int ev / 5 :: rat\<rfloor>"
    and "toilets n = \<lfloor>of_int ev / 20 :: rat\<rfloor>"
    by simp_all
next
  show "estimated_needs 1000 =
       Inr \<lparr>rice = 2800, drinking_water = 17500, water = 67000, family_kits = 200,
            toilets = 50\<rparr>"
    by (rule estimated_needs_1000)
qed

section \<open>Properties of the flood impact\<close>



















section \<open>The claims\<close>

subsection \<open>Flood: the unit of the gender ratio layer\<close>

text \<open>
  Claim C9, as amended. The exposure layers are scanned in order, before any array is
  read. At the first gender ratio layer whose unit is not \<open>percent\<close> or \<open>ratio\<close> the scan,
  and with it the run, fails: with a \<open>RuntimeError\<close> whose message is
  \<open>Unit for gender ratio must be either "percent" or "ratio"\<close> when the layer declares
  another unit, and with the \<open>KeyError\<close> of \<open>keywords['unit']\<close> when it declares none.
  When every gender ratio layer declares \<open>percent\<close> or \<open>ratio\<close>, the scan returns and the
  run does not raise that \<open>RuntimeError\<close>.
\<close>

theorem gender_ratio_unit_checked:
  "(exposure_layers layers = pre @ l # post \<and> units_accepted pre \<and> is_ratio_layer l
      \<and> declared_unit l \<notin> {None, Some ''percent'', Some ''ratio''}
      \<longrightarrow> scan_exposure (exposure_layers layers) (None, None) = Inl (RuntimeError unit_msg)
        \<and> flood_run layers = Inl (RuntimeError unit_msg))
   \<and> (exposure_layers layers = pre @ l # post \<and> units_accepted pre \<and> is_ratio_layer l
      \<and> declared_unit l = None
      \<longrightarrow> scan_exposure (exposure_layers layers) (None, None) = Inl (KeyError ''unit'')
        \<and> flood_run layers = Inl (KeyError ''unit''))
   \<and> (units_accepted (exposure_layers layers)
      \<longrightarrow> (\<exists>st. scan_exposure (exposure_layers layers) (None, None) = Inr st)
        \<and> flood_run layers \<noteq> Inl (RuntimeError unit_msg))"
proof (intro conjI impI)
  assume a: "exposure_layers layers = pre @ l # post \<and> units_accepted pre \<and> is_ratio_layer l
      \<and> declared_unit l \<notin> {None, Some ''percent'', Some ''ratio''}"
  then have e: "exposure_layers layers = pre @ l # post" and p: "units_accepted pre"
    and r: "is_ratio_layer l"
    and u: "declared_unit l \<notin> {None, Some ''percent'', Some ''ratio''}"
    by simp_all
  from scan_exposure_prefix [OF p] obtain st' where
    "scan_exposure (pre @ l # post) (None, None) = scan_exposure (l # post) st'"
    by blast
  then show scan: "scan_exposure (exposure_layers layers) (None, None)
                       = Inl (RuntimeError unit_msg)"
    using e scan_exposure_wrong_unit [OF r u] by simp
  then show "flood_run layers = Inl (RuntimeError unit_msg)"
    by (rule flood_run_scan_error)
next
  assume a: "exposure_layers layers = pre @ l # post \<and> units_accepted pre \<and> is_ratio_layer l
      \<and> declared_unit l = None"
  then have e: "exposure_layers layers = pre @ l # post" and p: "units_accepted pre"
    and r: "is_ratio_layer l" and u: "declared_unit l = None"
    by simp_all
  from scan_exposure_prefix [OF p] obtain st' where
    "scan_exposure (pre @ l # post) (None, None) = scan_exposure (l # post) st'"
    by blast
  then show scan: "scan_exposure (exposure_layers layers) (None, None)
                       = Inl (KeyError ''unit'')"
    using e scan_exposure_no_unit [OF r u] by simp
  then show "flood_run layers = Inl (KeyError ''unit'')"
    by (rule flood_run_scan_error)
next
  assume "units_accepted (exposure_layers layers)"
  then obtain st where st: "scan_exposure (exposure_layers layers) (None, None) = Inr st"
    using scan_exposure_good_units unfolding units_accepted_def by blast
  then show "\<exists>st. scan_exposure (exposure_layers layers) (None, None) = Inr st"
    by blast
  show "flood_run layers \<noteq> Inl (RuntimeError unit_msg)"
    using st by (rule flood_run_no_unit_error)
qed

text \<open>
  The theorem at a population layer followed by a gender ratio layer: with the unit
  \<open>meters\<close>, with no unit, and with the unit \<open>percent\<close>.
\<close>

theorem gender_ratio_unit_checked_witness:
  "flood_run (example_layers [example_population, example_gender [(''unit'', ''meters'')]])
     = Inl (RuntimeError unit_msg)
   \<and> flood_run (example_layers [example_population, example_gender []])
     = Inl (KeyError ''unit'')
   \<and> flood_run (example_layers [example_population, example_gender [(''unit'', ''percent'')]])
     \<noteq> Inl (RuntimeError unit_msg)"
proof (intro conjI)
  have pre: "units_accepted [example_population]"
    by (simp add: units_accepted_def is_ratio_layer_def example_population_def)
  show "flood_run (example_layers [example_population, example_gender [(''unit'', ''meters'')]])
          = Inl (RuntimeError unit_msg)"
    using gender_ratio_unit_checked
      [of "example_layers [example_population, example_gender [(''unit'', ''meters'')]]"
          "[example_population]" "example_gender [(''unit'', ''meters'')]" "[]"] pre
    by (simp add: example_layers_def example_gender_def is_ratio_layer_def declared_unit_def)
  show "flood_run (example_layers [example_population, example_gender []])
          = Inl (KeyError ''unit'')"
    using gender_ratio_unit_checked
      [of "example_layers [example_population, example_gender []]"
          "[example_population]" "example_gender []" "[]"] pre
    by (simp add: example_layers_def example_gender_def is_ratio_layer_def declared_unit_def)
  have "units_accepted [example_population, example_gender [(''unit'', ''percent'')]]"
    by (simp add: units_accepted_def is_ratio_layer_def declared_unit_def
        example_population_def example_gender_def)
  then show "flood_run (example_layers [example_population, example_gender [(''unit'', ''percent'')]])
          \<noteq> Inl (RuntimeError unit_msg)"
    using gender_ratio_unit_checked
      [of "example_layers [example_population, example_gender [(''unit'', ''percent'')]]"]
    by (simp add: example_layers_def)
qed

text \<open>
  Claim C9 as stated fails for a gender ratio layer with the unit \<open>meters\<close>: the run
  raises a \<open>RuntimeError\<close>, the class it also raises when no population layer is found,
  and not an exception of a class \<open>InvalidUnitError\<close>.
\<close>

theorem wrong_unit_is_runtime_error:
  "flood_run (example_layers [example_population, example_gender [(''unit'', ''meters'')]])
     = Inl (RuntimeError unit_msg)
   \<and> exception_class (RuntimeError unit_msg) \<noteq> ''InvalidUnitError''"
  by (simp add: flood_run_def example_layers_def example_population_def example_gender_def)

subsection \<open>Flood: the impact of a cell\<close>




subsection \<open>Flood: the impact is within the population\<close>





subsection \<open>Volcano: a hazard that is neither polygon nor point\<close>

text \<open>
  Claim C8, as amended. If the hazard layer is neither polygon nor point data, the run
  returns no layer: it raises an exception of the class \<open>Exception\<close>, whose message says
  that the hazard must be a polygon or point layer when the layer is a vector layer, and
  that it was not a vector layer otherwise.
\<close>

theorem not_polygon_nor_point:
  assumes "\<not> (is_polygon_data H \<or> is_point_data H)"
  shows "volcano_run ext H E =
           Inl (Exception
             (if is_vector H
              then ''Input hazard must be a polygon or point layer. I got ''
                     @ hazard_name H @ '' with layer type '' @ geometry_name H
              else ''Input hazard '' @ hazard_name H @ ''  was not a vector layer as expected ''))"
  using assms by (simp add: volcano_run_def)

text \<open>The theorem at a hazard layer of lines.\<close>

theorem not_polygon_nor_point_witness:
  "volcano_run
     \<lparr>make_circular_polygon = (\<lambda>H radii. H),
      assign_hazard_values_to_exposure_data = (\<lambda>H E. []),
      create_classes = (\<lambda>counts n. Inl ValueError),
      humanize_class = (\<lambda>classes. [] :: string list),
      create_label = (\<lambda>interval. interval)\<rparr>
     \<lparr>hazard_name = ''faults'', geometry_name = ''line'', is_vector = True,
      is_polygon_data = False, is_point_data = False, attribute_names = [], features = []\<rparr>
     \<lparr>exposure_name = ''people'', exposure_sum = Fin 0\<rparr>
   = Inl (Exception ''Input hazard must be a polygon or point layer. I got faults with layer type line'')"
  using not_polygon_nor_point
    [of "\<lparr>hazard_name = ''faults'', geometry_name = ''line'', is_vector = True,
          is_polygon_data = False, is_point_data = False, attribute_names = [], features = []\<rparr>"
        "\<lparr>make_circular_polygon = (\<lambda>H radii. H),
          assign_hazard_values_to_exposure_data = (\<lambda>H E. []),
          create_classes = (\<lambda>counts n. Inl ValueError),
          humanize_class = (\<lambda>classes. [] :: string list),
          create_label = (\<lambda>interval. interval)\<rparr>"
        "\<lparr>exposure_name = ''people'', exposure_sum = Fin 0\<rparr>"]
  by simp

text \<open>
  Claim C8 as stated fails for a hazard layer of lines: the run raises a plain
  \<open>Exception\<close>, the class it also raises for a hazard that is not a vector layer, and not
  an exception of a class \<open>UnsupportedGeometryError\<close>.
\<close>

theorem unsupported_geometry_is_plain_exception:
  "volcano_run
     \<lparr>make_circular_polygon = (\<lambda>H radii. H),
      assign_hazard_values_to_exposure_data = (\<lambda>H E. []),
      create_classes = (\<lambda>counts n. Inl ValueError),
      humanize_class = (\<lambda>classes. [] :: string list),
      create_label = (\<lambda>interval. interval)\<rparr>
     \<lparr>hazard_name = ''rivers'', geometry_name = ''line'', is_vector = True,
      is_polygon_data = False, is_point_data = False, attribute_names = [], features = []\<rparr>
     \<lparr>exposure_name = ''people'', exposure_sum = Fin 0\<rparr>
   = Inl (Exception ''Input hazard must be a polygon or point layer. I got rivers with layer type line'')
   \<and> exception_class
       (Exception ''Input hazard must be a polygon or point layer. I got rivers with layer type line'')
     \<noteq> ''UnsupportedGeometryError''"
  by (simp add: volcano_run_def)

subsection \<open>Volcano: estimated needs\<close>

text \<open>
  Claim C3. The function does not compute the rice as the claim says. For 11000 people
  the binary64 product \<open>11000 * 2.8\<close> is \<open>30799.999999999996\<close>, so \<open>int(evacuated * 2.8)\<close>
  is 30799, where \<open>11000 \<times> 2.8\<close> truncated is 30800.
\<close>

theorem rice_not_truncated_product:
  "map_sum id rice (estimated_needs 11000) = Inr 30799
   \<and> trunc (of_int 11000 * (28 / 10)) = 30800"
proof
  show "map_sum id rice (estimated_needs 11000) = Inr 30799"
    by (simp add: estimated_needs_11000)
  show "trunc (of_int 11000 * (28 / 10)) = 30800"
    using trunc_of_int [of 30800] by simp
qed

subsection \<open>Volcano: the cumulative count\<close>

text \<open>
  Claim C1. With \<open>round_thousand\<close> rounding to the nearest thousand, half up: when the
  totals of the named categories are finite, the loop returns, the final \<open>cum\<close> is the sum
  of the rounded totals of the names, and a name that does not occur again later in the
  list is reported with its rounded total and with the sum of the rounded totals up to
  and including it; rounding the running sum again changes nothing, as it is a multiple
  of a thousand. In a run that returns, \<open>evacuated\<close> is the final \<open>cum\<close> of that loop on the
  counted categories, the table entries are its \<open>pops\<close> and \<open>cums\<close>, and the needs are
  the estimated needs of \<open>evacuated\<close>.
\<close>

theorem cumulative_round_then_sum:
  "((\<forall>n\<in>set names. is_finite (category_total categories (category_key t n))) \<longrightarrow>
      (\<exists>ps cs. count_cumulative t categories names (0, Map.empty, Map.empty)
                 = Inr (sum_list (map (rounded_total t categories) names), ps, cs)
              \<and> (\<forall>pre n post. names = pre @ n # post \<and> n \<notin> set post \<longrightarrow>
                     ps n = Some (rounded_total t categories n)
                   \<and> cs n = Some (sum_list (map (rounded_total t categories) (pre @ [n]))))))
   \<and> (evacuation ext H E t names = Inr r \<longrightarrow>
      (\<exists>attrs cats.
           count_population (assign_hazard_values_to_exposure_data ext H E)
             (initial_count (features H)) = Inr (attrs, cats)
         \<and> count_cumulative t cats names (0, Map.empty, Map.empty)
             = Inr (evacuated r, pops r, cums r)
         \<and> estimated_needs (evacuated r) = Inr (minimum_needs r)))"
proof (intro conjI impI)
  assume fin: "\<forall>n\<in>set names. is_finite (category_total categories (category_key t n))"
  have dvd: "(1000::int) dvd 0" by simp
  from count_cumulative_returns [OF fin dvd, of Map.empty Map.empty]
  obtain ps cs where run:
    "count_cumulative t categories names (0, Map.empty, Map.empty)
       = Inr (sum_list (map (rounded_total t categories) names), ps, cs)"
    by auto
  have "\<forall>pre n post. names = pre @ n # post \<and> n \<notin> set post \<longrightarrow>
          ps n = Some (rounded_total t categories n)
        \<and> cs n = Some (sum_list (map (rounded_total t categories) (pre @ [n])))"
  proof (intro allI impI)
    fix pre n post
    assume "names = pre @ n # post \<and> n \<notin> set post"
    then have names: "names = pre @ n # post" and n: "n \<notin> set post" by simp_all
    from count_cumulative_entry [OF run fin dvd names n]
    show "ps n = Some (rounded_total t categories n)
        \<and> cs n = Some (sum_list (map (rounded_total t categories) (pre @ [n])))"
      by simp
  qed
  with run show "\<exists>ps cs. count_cumulative t categories names (0, Map.empty, Map.empty)
                 = Inr (sum_list (map (rounded_total t categories) names), ps, cs)
              \<and> (\<forall>pre n post. names = pre @ n # post \<and> n \<notin> set post \<longrightarrow>
                     ps n = Some (rounded_total t categories n)
                   \<and> cs n = Some (sum_list (map (rounded_total t categories) (pre @ [n]))))"
    by blast
next
  assume "evacuation ext H E t names = Inr r"
  then show "\<exists>attrs cats.
           count_population (assign_hazard_values_to_exposure_data ext H E)
             (initial_count (features H)) = Inr (attrs, cats)
         \<and> count_cumulative t cats names (0, Map.empty, Map.empty)
             = Inr (evacuated r, pops r, cums r)
         \<and> estimated_needs (evacuated r) = Inr (minimum_needs r)"
    by (rule evacuation_numbers)
qed

text \<open>The theorem at the example: cumulative counts 1000, 5000 and 5000.\<close>

theorem cumulative_round_then_sum_witness:
  "(\<exists>ps cs. count_cumulative ''Radius'' example_totals [Number 3, Number 5, Number 10]
               (0, Map.empty, Map.empty) = Inr (5000, ps, cs)
            \<and> ps (Number 5) = Some 4000 \<and> cs (Number 5) = Some 5000)
   \<and> estimated_needs 5000 =
       Inr \<lparr>rice = 14000, drinking_water = 87500, water = 335000, family_kits = 1000,
            toilets = 250\<rparr>"
proof -
  note inst = cumulative_round_then_sum
    [of "[Number 3, Number 5, Number 10]" example_totals "''Radius''" example_ext example_rings
        "\<lparr>exposure_name = ''people'', exposure_sum = Fin 20000\<rparr>"]
  from inst example_finite obtain ps cs where
    run: "count_cumulative ''Radius'' example_totals [Number 3, Number 5, Number 10]
            (0, Map.empty, Map.empty)
          = Inr (sum_list (map (rounded_total ''Radius'' example_totals)
                   [Number 3, Number 5, Number 10]), ps, cs)"
    and each: "\<forall>pre n post. [Number 3, Number 5, Number 10] = pre @ n # post \<and> n \<notin> set post \<longrightarrow>
                 ps n = Some (rounded_total ''Radius'' example_totals n)
               \<and> cs n = Some (sum_list (map (rounded_total ''Radius'' example_totals) (pre @ [n])))"
    by blast
  have "[Number 3, Number 5, Number 10] = [Number 3] @ Number 5 # [Number 10]
          \<and> Number 5 \<notin> set [Number 10]"
    by simp
  with each have "ps (Number 5) = Some (rounded_total ''Radius'' example_totals (Number 5))
      \<and> cs (Number 5) = Some (sum_list (map (rounded_total ''Radius'' example_totals)
                                  ([Number 3] @ [Number 5])))"
    by blast
  with run have first: "\<exists>ps cs. count_cumulative ''Radius'' example_totals
               [Number 3, Number 5, Number 10] (0, Map.empty, Map.empty) = Inr (5000, ps, cs)
            \<and> ps (Number 5) = Some 4000 \<and> cs (Number 5) = Some 5000"
    by (simp add: example_rounded)
  from inst [THEN conjunct2, THEN mp, OF example_evacuation]
  obtain attrs cats where
    "estimated_needs (evacuated \<lparr>new_attributes =
             [\<lparr>category_value = Number 3000, population = Fin 1000\<rparr>,
              \<lparr>category_value = Number 5000, population = Fin 4000\<rparr>,
              \<lparr>category_value = Number 10000, population = Fin 0\<rparr>],
           total = 20000,
           pops = [Number 3 \<mapsto> 1000, Number 5 \<mapsto> 4000, Number 10 \<mapsto> 0],
           cums = [Number 3 \<mapsto> 1000, Number 5 \<mapsto> 5000, Number 10 \<mapsto> 5000],
           evacuated = 5000,
           minimum_needs = \<lparr>rice = 14000, drinking_water = 87500, water = 335000,
                              family_kits = 1000, toilets = 250\<rparr>,
           style_classes =
             map (\<lambda>i. \<lparr>label = ''0 - 4000'', class_min = (if i = 0 then Fin 0 else Fin 4000),
                        transparency = (if i = 0 then 100 else 30), colour = colours ! i,
                        class_max = Fin 4000\<rparr>) [0 ..< 8]\<rparr>)
     = Inr (minimum_needs \<lparr>new_attributes =
             [\<lparr>category_value = Number 3000, population = Fin 1000\<rparr>,
              \<lparr>category_value = Number 5000, population = Fin 4000\<rparr>,
              \<lparr>category_value = Number 10000, population = Fin 0\<rparr>],
           total = 20000,
           pops = [Number 3 \<mapsto> 1000, Number 5 \<mapsto> 4000, Number 10 \<mapsto> 0],
           cums = [Number 3 \<mapsto> 1000, Number 5 \<mapsto> 5000, Number 10 \<mapsto> 5000],
           evacuated = 5000,
           minimum_needs = \<lparr>rice = 14000, drinking_water = 87500, water = 335000,
                              family_kits = 1000, toilets = 250\<rparr>,
           style_classes =
             map (\<lambda>i. \<lparr>label = ''0 - 4000'', class_min = (if i = 0 then Fin 0 else Fin 4000),
                        transparency = (if i = 0 then 100 else 30), colour = colours ! i,
                        class_max = Fin 4000\<rparr>) [0 ..< 8]\<rparr>)"
    by blast
  then have "estimated_needs 5000 =
       Inr \<lparr>rice = 14000, drinking_water = 87500, water = 335000, family_kits = 1000,
            toilets = 250\<rparr>"
    by (simp only: volcano_result.simps)
  with first show ?thesis by blast
qed

text \<open>
  Claim C5. With \<open>round_thousand\<close> rounding to the nearest thousand, half up: when the
  category names are distinct (as the two lists of the function are) and the total of
  every named category is finite and not negative, the loop returns and the cumulative
  values reported for the names, in the order of the list, are non-decreasing (and not
  negative).
\<close>

theorem cumulative_non_decreasing:
  assumes "distinct names"
    and "\<forall>n\<in>set names. \<exists>v. category_total categories (category_key t n) = Fin v \<and> 0 \<le> v"
  shows "\<exists>cum ps cs. count_cumulative t categories names (0, Map.empty, Map.empty) = Inr (cum, ps, cs)
           \<and> (\<forall>n\<in>set names. \<exists>c. cs n = Some c \<and> 0 \<le> c)
           \<and> sorted (map (\<lambda>n. the (cs n)) names)"
proof -
  have fin: "\<forall>n\<in>set names. is_finite (category_total categories (category_key t n))"
    using assms(2) by (auto simp add: is_finite_def)
  have dvd: "(1000::int) dvd 0" by simp
  from count_cumulative_returns [OF fin dvd, of Map.empty Map.empty]
  obtain cum ps cs where run:
    "count_cumulative t categories names (0, Map.empty, Map.empty) = Inr (cum, ps, cs)"
    by auto
  from count_cumulative_sorted [OF run assms(2) dvd assms(1)] run
  show ?thesis by blast
qed

text \<open>The theorem at the three zone names, with totals 1499, none and 700.\<close>

theorem cumulative_non_decreasing_witness:
  "\<exists>cum ps cs. count_cumulative ''KRB''
       [Label ''Kawasan Rawan Bencana III'' \<mapsto> Fin 1499, Label ''Kawasan Rawan Bencana I'' \<mapsto> Fin 700]
       krb_names (0, Map.empty, Map.empty) = Inr (cum, ps, cs)
     \<and> (\<forall>n\<in>set krb_names. \<exists>c. cs n = Some c \<and> 0 \<le> c)
     \<and> sorted (map (\<lambda>n. the (cs n)) krb_names)"
  using cumulative_non_decreasing
    [of krb_names
        "[Label ''Kawasan Rawan Bencana III'' \<mapsto> Fin 1499, Label ''Kawasan Rawan Bencana I'' \<mapsto> Fin 700]"
        "''KRB''"]
  by (simp add: krb_names_def category_total_def category_key_def)

subsection \<open>Volcano: polygons of other categories\<close>

text \<open>
  Claim C10. For a polygon hazard the categories are counted from the joined samples and
  the table is built with the title \<open>KRB\<close> and the three fixed names. When every sample
  refers to a polygon of the layer, the count returns and the population attribute of a
  polygon is the sum, in the order of the samples, of all samples joined to it, whatever
  its category; the total the table reads for a fixed name is the sum of the samples
  joined to the polygons of that name, and zero when no polygon has that name; and the
  table and the final \<open>cum\<close>, which becomes \<open>evacuated\<close>, are the same as if the samples
  joined to polygons of other categories were not there.
\<close>

theorem other_zones_counted_per_polygon_only:
  assumes "\<forall>s\<in>set samples. polygon_id s < length zones"
  shows "\<exists>attrs cats attrs' cats'.
           count_population samples (initial_count zones) = Inr (attrs, cats)
         \<and> count_population (filter (in_named_zone zones krb_names) samples) (initial_count zones)
             = Inr (attrs', cats')
         \<and> (\<forall>j<length zones.
               population (attrs ! j) =
                 foldl fadd (Fin 0)
                   (map sample_population (filter (\<lambda>s. polygon_id s = j) samples)))
         \<and> (\<forall>name\<in>set krb_names.
               category_total cats (category_key ''KRB'' name) =
                 foldl fadd (Fin 0)
                   (map sample_population
                      (filter (\<lambda>s. zones ! polygon_id s = name) samples))
             \<or> name \<notin> set zones \<and> category_total cats (category_key ''KRB'' name) = Fin 0)
         \<and> count_cumulative ''KRB'' cats krb_names (0, Map.empty, Map.empty)
             = count_cumulative ''KRB'' cats' krb_names (0, Map.empty, Map.empty)"
proof -
  let ?kept = "filter (in_named_zone zones krb_names) samples"
  have ids': "\<forall>s\<in>set ?kept. polygon_id s < length zones"
    using assms by simp
  from initial_count_result [OF assms] obtain attrs cats where
    run: "count_population samples (initial_count zones) = Inr (attrs, cats)"
    and polys: "\<forall>j<length zones.
             category_value (attrs ! j) = zones ! j
           \<and> population (attrs ! j) =
               foldl fadd (Fin 0) (map sample_population (filter (\<lambda>s. polygon_id s = j) samples))"
    and cats: "\<forall>k. category_total cats k =
             (if k \<in> set zones
              then foldl fadd (Fin 0)
                     (map sample_population (filter (\<lambda>s. zones ! polygon_id s = k) samples))
              else Fin 0)"
    by blast
  from initial_count_result [OF ids'] obtain attrs' cats' where
    run': "count_population ?kept (initial_count zones) = Inr (attrs', cats')"
    and cats': "\<forall>k. category_total cats' k =
             (if k \<in> set zones
              then foldl fadd (Fin 0)
                     (map sample_population (filter (\<lambda>s. zones ! polygon_id s = k) ?kept))
              else Fin 0)"
    by blast
  have same: "category_total cats (category_key ''KRB'' name)
                = category_total cats' (category_key ''KRB'' name)"
    if "name \<in> set krb_names" for name
  proof -
    have "filter (\<lambda>s. zones ! polygon_id s = name) ?kept
            = filter (\<lambda>s. zones ! polygon_id s = name) samples"
      using that by (auto simp add: in_named_zone_def intro: filter_cong)
    then show ?thesis
      using cats cats' by (simp add: category_key_def)
  qed
  have cong: "count_cumulative ''KRB'' cats krb_names (0, Map.empty, Map.empty)
             = count_cumulative ''KRB'' cats' krb_names (0, Map.empty, Map.empty)"
    by (rule count_cumulative_cong) (simp add: same)
  have tot: "\<forall>name\<in>set krb_names.
               category_total cats (category_key ''KRB'' name) =
                 foldl fadd (Fin 0)
                   (map sample_population
                      (filter (\<lambda>s. zones ! polygon_id s = name) samples))
             \<or> name \<notin> set zones \<and> category_total cats (category_key ''KRB'' name) = Fin 0"
    using cats by (simp add: category_key_def)
  show ?thesis
  proof (intro exI conjI)
    show "count_population samples (initial_count zones) = Inr (attrs, cats)" by (rule run)
    show "count_population ?kept (initial_count zones) = Inr (attrs', cats')" by (rule run')
    show "\<forall>j<length zones.
               population (attrs ! j) =
                 foldl fadd (Fin 0)
                   (map sample_population (filter (\<lambda>s. polygon_id s = j) samples))"
      using polys by simp
  qed (rule tot, rule cong)
qed

text \<open>
  The theorem at a polygon of zone III with 1000 people and a polygon of another category
  with 7000 people.
\<close>

theorem other_zones_counted_per_polygon_only_witness:
  "\<exists>attrs cats attrs' cats'.
     count_population
       [\<lparr>sample_population = Fin 1000, polygon_id = 0\<rparr>,
        \<lparr>sample_population = Fin 7000, polygon_id = 1\<rparr>]
       (initial_count [Label ''Kawasan Rawan Bencana III'', Label ''Zona Lain'']) = Inr (attrs, cats)
   \<and> count_population [\<lparr>sample_population = Fin 1000, polygon_id = 0\<rparr>]
       (initial_count [Label ''Kawasan Rawan Bencana III'', Label ''Zona Lain'']) = Inr (attrs', cats')
   \<and> population (attrs ! 1) = Fin 7000
   \<and> category_total cats (Label ''Kawasan Rawan Bencana III'') = Fin 1000
   \<and> count_cumulative ''KRB'' cats krb_names (0, Map.empty, Map.empty)
       = count_cumulative ''KRB'' cats' krb_names (0, Map.empty, Map.empty)"
proof -
  let ?zones = "[Label ''Kawasan Rawan Bencana III'', Label ''Zona Lain'']"
  let ?s0 = "\<lparr>sample_population = Fin 1000, polygon_id = 0\<rparr>"
  let ?s1 = "\<lparr>sample_population = Fin 7000, polygon_id = 1\<rparr>"
  have ids: "\<forall>s\<in>set [?s0, ?s1]. polygon_id s < length ?zones" by simp
  have kept: "filter (in_named_zone ?zones krb_names) [?s0, ?s1] = [?s0]"
    by (simp add: in_named_zone_def krb_names_def)
  from other_zones_counted_per_polygon_only [OF ids] obtain attrs cats attrs' cats' where
    run: "count_population [?s0, ?s1] (initial_count ?zones) = Inr (attrs, cats)"
    and run': "count_population (filter (in_named_zone ?zones krb_names) [?s0, ?s1])
                 (initial_count ?zones) = Inr (attrs', cats')"
    and polys: "\<forall>j<length ?zones.
               population (attrs ! j) =
                 foldl fadd (Fin 0)
                   (map sample_population (filter (\<lambda>s. polygon_id s = j) [?s0, ?s1]))"
    and tot: "\<forall>name\<in>set krb_names.
               category_total cats (category_key ''KRB'' name) =
                 foldl fadd (Fin 0)
                   (map sample_population
                      (filter (\<lambda>s. ?zones ! polygon_id s = name) [?s0, ?s1]))
             \<or> name \<notin> set ?zones \<and> category_total cats (category_key ''KRB'' name) = Fin 0"
    and same: "count_cumulative ''KRB'' cats krb_names (0, Map.empty, Map.empty)
             = count_cumulative ''KRB'' cats' krb_names (0, Map.empty, Map.empty)"
    by blast
  have "(1::nat) < length ?zones" by simp
  with polys have "population (attrs ! 1) =
                 foldl fadd (Fin 0)
                   (map sample_population (filter (\<lambda>s. polygon_id s = 1) [?s0, ?s1]))"
    by blast
  then have p1: "population (attrs ! 1) = Fin 7000"
    by (simp add: rnd_of_int_numeral)
  have "Label ''Kawasan Rawan Bencana III'' \<in> set krb_names" by (simp add: krb_names_def)
  with tot have "category_total cats (category_key ''KRB'' (Label ''Kawasan Rawan Bencana III'')) =
                 foldl fadd (Fin 0)
                   (map sample_population
                      (filter (\<lambda>s. ?zones ! polygon_id s = Label ''Kawasan Rawan Bencana III'')
                         [?s0, ?s1]))
             \<or> Label ''Kawasan Rawan Bencana III'' \<notin> set ?zones
               \<and> category_total cats (category_key ''KRB'' (Label ''Kawasan Rawan Bencana III'')) = Fin 0"
    by blast
  then have t3: "category_total cats (Label ''Kawasan Rawan Bencana III'') = Fin 1000"
    by (simp add: category_key_def rnd_of_int_numeral)
  from run run' [unfolded kept] p1 t3 same show ?thesis by blast
qed

subsection \<open>Volcano: the style classes\<close>



end
